theory Spec2Isabelle
  imports Complex_Main
begin

section \<open>Python values, exceptions and effects\<close>

text \<open>
  The module \<^verbatim>\<open>SlicerSofa.py\<close> is a controller between a parameter container of the
  host application and the node graph of the SOFA engine.  Its methods mutate the
  controller, the container and the descriptors of the container's class, call the
  engine, and call user supplied data movers.  The embedding passes the state
  explicitly; every call returns the state it leaves behind, also when it raises.
  The movers are parameters of the model.  The engine is outside the module: its calls
  (\<^verbatim>\<open>init\<close>, \<^verbatim>\<open>animate\<close>, \<^verbatim>\<open>unload\<close>) are recorded in the order they happen and have no
  other effect here.
\<close>

datatype error =
    ValueError string
  | AttributeError string
  | TypeError string
  | NodeNotFound string
  | OtherError string

text \<open>The outcome of a call: it returns normally, or an exception propagates.  Both
  carry the state after the call, since Python does not undo the assignments made
  before a \<^verbatim>\<open>raise\<close>.\<close>

datatype 'a result = Returned 'a | Raised error 'a

fun state_of :: "'a result \<Rightarrow> 'a" where
  "state_of (Returned s) = s"
| "state_of (Raised e s) = s"

fun has_returned :: "'a result \<Rightarrow> bool" where
  "has_returned (Returned s) = True"
| "has_returned (Raised e s) = False"

datatype direction = Input | Output

text \<open>The calls that leave the module, in the order they happen: the entry of the two
  synchronisation loops, the evaluation of the target node of a field (line 239 and
  line 255), the call of a mover, the three engine calls and the message box of
  \<^verbatim>\<open>slicer.util.errorDisplay\<close>.\<close>

datatype event =
    EnterSync direction
  | Resolve direction string
  | Invoke direction string
  | SimInit
  | SimAnimate real
  | SimUnload
  | ErrorDisplay string

section \<open>Data model\<close>

text \<open>The fields that \<^verbatim>\<open>sofaParameterNodeWrapper\<close> guarantees on a container (lines 93 to
  97), and the user's own fields.\<close>

record 'u param_fields =
  dt :: real
  totalSteps :: int
  currentStep :: int
  isSimulationRunning :: bool
  sofaParameterNodeWrapped :: bool
  user :: 'u

text \<open>A \<^verbatim>\<open>Sofa.Core.Node\<close> used as root: the names its subscript operator resolves, and the
  data of the graph.\<close>

record 'd sofa_node =
  children :: "string list"
  payload :: 'd

datatype node_ref = RootRef | ChildRef string

text \<open>A mover is a callable of the user, called as \<^verbatim>\<open>mapping(parameterNode, node)\<close>.  It
  is a parameter of the model: a function of the container's fields, the graph behind
  the controller's root handle (\<open>None\<close> when the handle is \<^verbatim>\<open>None\<close>) and the node it is
  given, which may change the first two and may raise.  The attribute \<^verbatim>\<open>run_once\<close> is
  set by the decorator of line 25.\<close>

type_synonym ('u, 'd) mover_fn =
  "'u param_fields \<Rightarrow> 'd sofa_node option \<Rightarrow> node_ref
     \<Rightarrow> ('u param_fields \<times> 'd sofa_node option) result"

record ('u, 'd) mover =
  run_once :: bool
  call :: "('u, 'd) mover_fn"

definition run_once_decorator :: "('u, 'd) mover \<Rightarrow> ('u, 'd) mover" where
  "run_once_decorator func = func\<lparr>run_once := True\<rparr>"

record ('u, 'd) SofaNodeMapper =
  nodeName :: "string option"
  type_hint :: "string option"
  recordSequence :: bool
  inputMapping :: "('u, 'd) mover option"
  outputMapping :: "('u, 'd) mover option"
  inputMapping_has_run :: bool
  outputMapping_has_run :: bool

text \<open>What a caller may pass as \<^verbatim>\<open>inputMapping\<close> or \<^verbatim>\<open>outputMapping\<close>.\<close>

datatype ('u, 'd) mapping_arg =
    ArgNone
  | ArgNotCallable
  | ArgCallable "('u, 'd) mover"

fun is_None :: "('u, 'd) mapping_arg \<Rightarrow> bool" where
  "is_None ArgNone = True"
| "is_None _ = False"

fun callable :: "('u, 'd) mapping_arg \<Rightarrow> bool" where
  "callable (ArgCallable f) = True"
| "callable _ = False"

fun stored :: "('u, 'd) mapping_arg \<Rightarrow> ('u, 'd) mover option" where
  "stored (ArgCallable f) = Some f"
| "stored _ = None"

text \<open>\<^verbatim>\<open>SofaNodeMapper.__init__\<close>, lines 41 to 54.\<close>

definition SofaNodeMapper_init ::
  "string option \<Rightarrow> ('u, 'd) mapping_arg \<Rightarrow> ('u, 'd) mapping_arg \<Rightarrow> bool
     \<Rightarrow> error + ('u, 'd) SofaNodeMapper" where
  "SofaNodeMapper_init nodeName' inputMapping' outputMapping' recordSequence' =
     (if \<not> is_None inputMapping' \<and> \<not> callable inputMapping'
      then Inl (ValueError ''inputMapping is not callable'')
      else if \<not> is_None outputMapping' \<and> \<not> callable outputMapping'
      then Inl (ValueError ''outputMapping is not callable'')
      else Inr \<lparr>nodeName = nodeName', type_hint = None,
                recordSequence = recordSequence',
                inputMapping = stored inputMapping',
                outputMapping = stored outputMapping',
                inputMapping_has_run = False,
                outputMapping_has_run = False\<rparr>)"

text \<open>A container object: its fields, and the registry \<^verbatim>\<open>__sofa_node_mappers__\<close> of its
  class, a dictionary in insertion order.\<close>

record ('u, 'd) container =
  attrs :: "'u param_fields"
  sofa_node_mappers :: "(string \<times> ('u, 'd) SofaNodeMapper) list"

text \<open>The controller \<^verbatim>\<open>SlicerSofaLogic\<close> (lines 161 to 163), with the container and the
  graph it refers to, and the calls made so far.\<close>

record ('u, 'd) logic =
  sceneUp :: bool
  rootNode :: "'d sofa_node option"
  parameterNode :: "('u, 'd) container option"
  trace :: "event list"

definition SlicerSofaLogic_init :: "('u, 'd) logic" where
  "SlicerSofaLogic_init =
     \<lparr>sceneUp = False, rootNode = None, parameterNode = None, trace = []\<rparr>"

text \<open>What a caller may pass to \<^verbatim>\<open>setupScene\<close>: as container \<^verbatim>\<open>None\<close>, an object without
  the attribute \<^verbatim>\<open>sofaParameterNodeWrapped\<close>, or a container that has it; as root a
  \<^verbatim>\<open>Sofa.Core.Node\<close> or anything else.\<close>

datatype ('u, 'd) container_arg =
    PyNone
  | NoAttribute
  | Container "('u, 'd) container"

datatype 'd root_arg =
    NotANode
  | IsNode "'d sofa_node"

section \<open>The synchronisation loops\<close>

fun mover_of :: "direction \<Rightarrow> ('u, 'd) SofaNodeMapper \<Rightarrow> ('u, 'd) mover option" where
  "mover_of Input m = inputMapping m"
| "mover_of Output m = outputMapping m"

fun has_run :: "direction \<Rightarrow> ('u, 'd) SofaNodeMapper \<Rightarrow> bool" where
  "has_run Input m = inputMapping_has_run m"
| "has_run Output m = outputMapping_has_run m"

fun set_has_run :: "direction \<Rightarrow> ('u, 'd) SofaNodeMapper \<Rightarrow> ('u, 'd) SofaNodeMapper" where
  "set_has_run Input m = m\<lparr>inputMapping_has_run := True\<rparr>"
| "set_has_run Output m = m\<lparr>outputMapping_has_run := True\<rparr>"

text \<open>\<^verbatim>\<open>self._rootNode[name] if name else self._rootNode\<close>: an empty or missing name is
  the root.  The subscript belongs to the engine's binding; its failure on a name the
  graph does not have is the error that the specification calls NodeNotFound.\<close>

definition resolve :: "'d sofa_node option \<Rightarrow> string option \<Rightarrow> error + node_ref" where
  "resolve handle name =
     (case name of
        None \<Rightarrow> Inr RootRef
      | Some n \<Rightarrow>
          if n = [] then Inr RootRef
          else (case handle of
                  None \<Rightarrow> Inl (TypeError ''NoneType object is not subscriptable'')
                | Some g \<Rightarrow>
                    if n \<in> set (children g) then Inr (ChildRef n)
                    else Inl (NodeNotFound n)))"

text \<open>What the body of the two loops can touch.\<close>

record ('u, 'd) sync_env =
  env_fields :: "'u param_fields"
  env_root :: "'d sofa_node option"
  env_trace :: "event list"

text \<open>One iteration of the loop of \<^verbatim>\<open>__updateSofa__\<close> (lines 232 to 242) or of
  \<^verbatim>\<open>__updateMRML__\<close> (lines 248 to 258), which differ in the direction only.\<close>

definition sync_entry ::
  "direction \<Rightarrow> string \<Rightarrow> ('u, 'd) SofaNodeMapper \<Rightarrow> ('u, 'd) sync_env
     \<Rightarrow> (('u, 'd) SofaNodeMapper \<times> ('u, 'd) sync_env) result" where
  "sync_entry dir field_name m s =
     (case mover_of dir m of
        None \<Rightarrow> Returned (m, s)
      | Some f \<Rightarrow>
          if run_once f \<and> has_run dir m then Returned (m, s)
          else
            (let s1 = s\<lparr>env_trace := env_trace s @ [Resolve dir field_name]\<rparr> in
             case resolve (env_root s1) (nodeName m) of
               Inl e \<Rightarrow> Raised e (m, s1)
             | Inr node \<Rightarrow>
                 (let s2 = s1\<lparr>env_trace := env_trace s1 @ [Invoke dir field_name]\<rparr> in
                  case call f (env_fields s2) (env_root s2) node of
                    Raised e (p, g) \<Rightarrow>
                      Raised e (m, s2\<lparr>env_fields := p, env_root := g\<rparr>)
                  | Returned (p, g) \<Rightarrow>
                      Returned (if run_once f then set_has_run dir m else m,
                                s2\<lparr>env_fields := p, env_root := g\<rparr>))))"

fun sync_loop ::
  "direction \<Rightarrow> (string \<times> ('u, 'd) SofaNodeMapper) list \<Rightarrow> ('u, 'd) sync_env
     \<Rightarrow> ((string \<times> ('u, 'd) SofaNodeMapper) list \<times> ('u, 'd) sync_env) result" where
  "sync_loop dir [] s = Returned ([], s)"
| "sync_loop dir ((k, m) # rest) s =
     (case sync_entry dir k m s of
        Raised e (m', s') \<Rightarrow> Raised e ((k, m') # rest, s')
      | Returned (m', s') \<Rightarrow>
          (case sync_loop dir rest s' of
             Raised e (rest', s'') \<Rightarrow> Raised e ((k, m') # rest', s'')
           | Returned (rest', s'') \<Rightarrow> Returned ((k, m') # rest', s'')))"

text \<open>The state of the controller after a loop that ended with the registry \<open>ms\<close> and the
  environment \<open>s\<close>.\<close>

definition store_env ::
  "('u, 'd) logic \<Rightarrow> (string \<times> ('u, 'd) SofaNodeMapper) list \<times> ('u, 'd) sync_env
     \<Rightarrow> ('u, 'd) logic" where
  "store_env st r =
     st\<lparr>rootNode := env_root (snd r),
        parameterNode := Some \<lparr>attrs = env_fields (snd r), sofa_node_mappers = fst r\<rparr>,
        trace := env_trace (snd r)\<rparr>"

text \<open>\<^verbatim>\<open>__updateSofa__\<close> for \<open>Input\<close> and \<^verbatim>\<open>__updateMRML__\<close> for \<open>Output\<close>.  The first line of
  both reads the class of the container, which raises when there is none.\<close>

definition update :: "direction \<Rightarrow> ('u, 'd) logic \<Rightarrow> ('u, 'd) logic result" where
  "update dir st =
     (let st1 = st\<lparr>trace := trace st @ [EnterSync dir]\<rparr> in
      case parameterNode st1 of
        None \<Rightarrow> Raised (AttributeError ''__sofa_node_mappers__'') st1
      | Some pn \<Rightarrow>
          (case sync_loop dir (sofa_node_mappers pn)
                  \<lparr>env_fields = attrs pn, env_root = rootNode st1, env_trace = trace st1\<rparr> of
             Raised e r \<Rightarrow> Raised e (store_env st1 r)
           | Returned r \<Rightarrow> Returned (store_env st1 r)))"

definition updateSofa :: "('u, 'd) logic \<Rightarrow> ('u, 'd) logic result" where
  "updateSofa st = update Input st"

definition updateMRML :: "('u, 'd) logic \<Rightarrow> ('u, 'd) logic result" where
  "updateMRML st = update Output st"

section \<open>The lifecycle controller\<close>

text \<open>\<^verbatim>\<open>__checkParameterNode__\<close>, lines 165 to 169: it raises, or it returns and the argument
  is a container.  \<^verbatim>\<open>getattr\<close> is called without a default, so an object that lacks the
  attribute raises \<^verbatim>\<open>AttributeError\<close>.  Any value of the attribute other than \<^verbatim>\<open>True\<close>
  fails the test.\<close>

fun checkParameterNode :: "('u, 'd) container_arg \<Rightarrow> error + ('u, 'd) container" where
  "checkParameterNode PyNone = Inl (ValueError ''parameterNode can't be None'')"
| "checkParameterNode NoAttribute = Inl (AttributeError ''sofaParameterNodeWrapped'')"
| "checkParameterNode (Container pn) =
     (if \<not> sofaParameterNodeWrapped (attrs pn)
      then Inl (ValueError
        ''parameterNode is not a valid parameterNode wrapped by the sofaParameterNodeWrapper'')
      else Inr pn)"

text \<open>\<^verbatim>\<open>setupScene\<close>, lines 171 to 184.\<close>

definition setupScene ::
  "('u, 'd) logic \<Rightarrow> ('u, 'd) container_arg \<Rightarrow> 'd root_arg \<Rightarrow> ('u, 'd) logic result" where
  "setupScene st parameterNode' rootNode' =
     (if sceneUp st then Returned st
      else
        (case checkParameterNode parameterNode' of
           Inl e \<Rightarrow> Raised e st
         | Inr pn \<Rightarrow>
             (let st1 = st\<lparr>parameterNode := Some pn\<rparr> in
              case rootNode' of
                NotANode \<Rightarrow>
                  Raised (ValueError ''rootNode is not a valid Sofa.Core.Node root node'') st1
              | IsNode g \<Rightarrow>
                  (let st2 = st1\<lparr>rootNode := Some g\<rparr> in
                   case updateSofa st2 of
                     Raised e st3 \<Rightarrow> Raised e st3
                   | Returned st3 \<Rightarrow>
                       Returned (st3\<lparr>trace := trace st3 @ [SimInit], sceneUp := True\<rparr>)))))"

text \<open>Assignments to fields of the attached container.\<close>

definition set_fields ::
  "('u param_fields \<Rightarrow> 'u param_fields) \<Rightarrow> ('u, 'd) logic \<Rightarrow> ('u, 'd) logic result" where
  "set_fields upd st =
     (case parameterNode st of
        None \<Rightarrow> Raised (AttributeError ''NoneType object has no such attribute'') st
      | Some pn \<Rightarrow> Returned (st\<lparr>parameterNode := Some (pn\<lparr>attrs := upd (attrs pn)\<rparr>)\<rparr>))"

text \<open>\<^verbatim>\<open>startSimulation\<close>, lines 186 to 189.\<close>

definition startSimulation :: "('u, 'd) logic \<Rightarrow> ('u, 'd) logic result" where
  "startSimulation st =
     set_fields (\<lambda>p. p\<lparr>currentStep := 0, isSimulationRunning := True\<rparr>) st"

text \<open>\<^verbatim>\<open>stopSimulation\<close>, lines 191 to 194.\<close>

definition stopSimulation :: "('u, 'd) logic \<Rightarrow> ('u, 'd) logic result" where
  "stopSimulation st =
     (if sceneUp st then set_fields (\<lambda>p. p\<lparr>isSimulationRunning := False\<rparr>) st
      else Returned st)"

definition not_running_message :: string where
  "not_running_message = ''Can't advance the simulation forward. Simulation is not running.''"

definition errorDisplay :: "string \<Rightarrow> ('u, 'd) logic \<Rightarrow> ('u, 'd) logic" where
  "errorDisplay msg st = st\<lparr>trace := trace st @ [ErrorDisplay msg]\<rparr>"

text \<open>Lines 205 to 211 of \<^verbatim>\<open>simulationStep\<close>: the engine advances while the bound is not
  reached or when there is no bound; at the bound the simulation stops.\<close>

definition advance :: "('u, 'd) logic \<Rightarrow> ('u, 'd) logic result" where
  "advance st =
     (case parameterNode st of
        None \<Rightarrow> Raised (AttributeError ''currentStep'') st
      | Some pn \<Rightarrow>
          if currentStep (attrs pn) < totalSteps (attrs pn) then
            set_fields (\<lambda>p. p\<lparr>currentStep := currentStep p + 1\<rparr>)
              (st\<lparr>trace := trace st @ [SimAnimate (dt (attrs pn))]\<rparr>)
          else if totalSteps (attrs pn) < 0 then
            Returned (st\<lparr>trace := trace st @ [SimAnimate (dt (attrs pn))]\<rparr>)
          else set_fields (\<lambda>p. p\<lparr>isSimulationRunning := False\<rparr>) st)"

text \<open>\<^verbatim>\<open>simulationStep\<close>, lines 196 to 213.\<close>

definition simulationStep :: "('u, 'd) logic \<Rightarrow> ('u, 'd) logic result" where
  "simulationStep st =
     (if \<not> sceneUp st then Returned (errorDisplay not_running_message st)
      else
        (case parameterNode st of
           None \<Rightarrow> Raised (AttributeError ''isSimulationRunning'') st
         | Some pn \<Rightarrow>
             if \<not> isSimulationRunning (attrs pn)
             then Returned (errorDisplay not_running_message st)
             else
               (case updateSofa st of
                  Raised e st1 \<Rightarrow> Raised e st1
                | Returned st1 \<Rightarrow>
                    (case advance st1 of
                       Raised e st2 \<Rightarrow> Raised e st2
                     | Returned st2 \<Rightarrow> updateMRML st2))))"

text \<open>\<^verbatim>\<open>clean\<close>, lines 215 to 221.  A \<^verbatim>\<open>Sofa.Core.Node\<close> is taken as true in the test
  of line 217.\<close>

definition clean :: "('u, 'd) logic \<Rightarrow> ('u, 'd) logic result" where
  "clean st =
     (if sceneUp st \<and> rootNode st \<noteq> None then
        set_fields (\<lambda>p. p\<lparr>isSimulationRunning := False\<rparr>)
          (st\<lparr>trace := trace st @ [SimUnload], rootNode := None, sceneUp := False\<rparr>)
      else Returned st)"
section \<open>Conditions on movers and registries\<close>

text \<open>The loop body does nothing for a descriptor that has no mover in the direction, or
  whose run-once mover has run.\<close>

definition skipped :: "direction \<Rightarrow> ('u, 'd) SofaNodeMapper \<Rightarrow> bool" where
  "skipped dir m =
     (case mover_of dir m of None \<Rightarrow> True | Some f \<Rightarrow> run_once f \<and> has_run dir m)"

text \<open>The control fields that \<^verbatim>\<open>simulationStep\<close> reads.\<close>

definition ctl :: "'u param_fields \<Rightarrow> int \<times> int \<times> bool" where
  "ctl p = (totalSteps p, currentStep p, isSimulationRunning p)"

definition control :: "('u, 'd) logic \<Rightarrow> (int \<times> int \<times> bool) option" where
  "control st = map_option (\<lambda>pn. ctl (attrs pn)) (parameterNode st)"

text \<open>A mover is a data mover and no controller: it leaves the control fields alone,
  whether it returns or raises.\<close>

definition keeps_control :: "('u, 'd) mover \<Rightarrow> bool" where
  "keeps_control f = (\<forall>p g node. ctl (fst (state_of (call f p g node))) = ctl p)"

text \<open>A mover that moreover returns normally and leaves the names of the graph alone.\<close>

definition well_behaved :: "('u, 'd) mover \<Rightarrow> bool" where
  "well_behaved f =
     (\<forall>p g node. has_returned (call f p g node)
        \<and> ctl (fst (state_of (call f p g node))) = ctl p
        \<and> map_option children (snd (state_of (call f p g node))) = map_option children g)"

fun holds_for :: "('a \<Rightarrow> bool) \<Rightarrow> 'a option \<Rightarrow> bool" where
  "holds_for P None = True"
| "holds_for P (Some x) = P x"

definition each_mover ::
  "(('u, 'd) mover \<Rightarrow> bool) \<Rightarrow> (string \<times> ('u, 'd) SofaNodeMapper) list \<Rightarrow> bool" where
  "each_mover P ms =
     list_all (\<lambda>km. holds_for P (inputMapping (snd km)) \<and> holds_for P (outputMapping (snd km))) ms"

text \<open>How a descriptor can change over time: only its two flags, and only from unset to
  set.\<close>

definition later :: "('u, 'd) SofaNodeMapper \<Rightarrow> ('u, 'd) SofaNodeMapper \<Rightarrow> bool" where
  "later m m' =
     (nodeName m' = nodeName m \<and> type_hint m' = type_hint m
      \<and> recordSequence m' = recordSequence m
      \<and> inputMapping m' = inputMapping m \<and> outputMapping m' = outputMapping m
      \<and> (inputMapping_has_run m \<longrightarrow> inputMapping_has_run m')
      \<and> (outputMapping_has_run m \<longrightarrow> outputMapping_has_run m'))"

definition evolves ::
  "(string \<times> ('u, 'd) SofaNodeMapper) list \<Rightarrow> (string \<times> ('u, 'd) SofaNodeMapper) list \<Rightarrow> bool" where
  "evolves ms ms' = list_all2 (\<lambda>km km'. fst km' = fst km \<and> later (snd km) (snd km')) ms ms'"

text \<open>The names a graph resolves, and the registries whose descriptors all find their node
  in a direction, unless the loop skips them.\<close>

definition resolves :: "string list \<Rightarrow> string option \<Rightarrow> bool" where
  "resolves names name = (case name of None \<Rightarrow> True | Some n \<Rightarrow> n = [] \<or> n \<in> set names)"

definition resolvable ::
  "direction \<Rightarrow> string list \<Rightarrow> (string \<times> ('u, 'd) SofaNodeMapper) list \<Rightarrow> bool" where
  "resolvable dir names ms =
     list_all (\<lambda>km. skipped dir (snd km) \<or> resolves names (nodeName (snd km))) ms"

text \<open>The loop that \<open>update\<close> runs on a controller with the container \<open>pn\<close>.\<close>

definition loop_of ::
  "direction \<Rightarrow> ('u, 'd) logic \<Rightarrow> ('u, 'd) container
     \<Rightarrow> ((string \<times> ('u, 'd) SofaNodeMapper) list \<times> ('u, 'd) sync_env) result" where
  "loop_of dir st pn =
     sync_loop dir (sofa_node_mappers pn)
       \<lparr>env_fields = attrs pn, env_root = rootNode st,
        env_trace = trace st @ [EnterSync dir]\<rparr>"

section \<open>Sequences of calls and what they leave in the trace\<close>

text \<open>The number of times \<^verbatim>\<open>__updateSofa__\<close> was entered.\<close>

definition pushes :: "event list \<Rightarrow> nat" where
  "pushes t = length (filter (\<lambda>e. e = EnterSync Input) t)"

text \<open>\<^verbatim>\<open>setupScene\<close> called again and again, with any arguments; the caller goes on after an
  exception.\<close>

fun setupScene_calls ::
  "(('u, 'd) container_arg \<times> 'd root_arg) list \<Rightarrow> ('u, 'd) logic \<Rightarrow> ('u, 'd) logic" where
  "setupScene_calls [] st = st"
| "setupScene_calls ((p, r) # calls) st = setupScene_calls calls (state_of (setupScene st p r))"

text \<open>The events of one field in one direction, and the calls of its mover among them.\<close>

definition touches :: "direction \<Rightarrow> string \<Rightarrow> event \<Rightarrow> bool" where
  "touches dir k e = (e = Resolve dir k \<or> e = Invoke dir k)"


text \<open>Any sequence of the two synchronisation loops on one controller.\<close>

fun syncs :: "direction list \<Rightarrow> ('u, 'd) logic \<Rightarrow> ('u, 'd) logic" where
  "syncs [] st = st"
| "syncs (d # ds) st = syncs ds (state_of (update d st))"




definition quiet :: "direction \<Rightarrow> string \<Rightarrow> (string \<times> ('u, 'd) SofaNodeMapper) list \<Rightarrow> bool" where
  "quiet dir k ms = list_all (\<lambda>km. fst km = k \<longrightarrow> skipped dir (snd km)) ms"

text \<open>\<^verbatim>\<open>clean\<close>, and then \<^verbatim>\<open>setupScene\<close> with the container the controller holds and a new
  root.\<close>

definition rebuild :: "('u, 'd) logic \<Rightarrow> 'd root_arg \<Rightarrow> ('u, 'd) logic result" where
  "rebuild st r =
     (let st1 = state_of (clean st) in
      setupScene st1 (case parameterNode st1 of None \<Rightarrow> PyNone | Some pn \<Rightarrow> Container pn) r)"

text \<open>What a loop that returns leaves behind: for every descriptor it does not skip, in
  the order of the registry, the lookup of the node and the call of the mover; and the
  flag of every run-once mover it has called.\<close>

definition sync_events ::
  "direction \<Rightarrow> (string \<times> ('u, 'd) SofaNodeMapper) list \<Rightarrow> event list" where
  "sync_events dir ms =
     concat (map (\<lambda>km. if skipped dir (snd km) then []
                        else [Resolve dir (fst km), Invoke dir (fst km)]) ms)"

definition after_sync :: "direction \<Rightarrow> ('u, 'd) SofaNodeMapper \<Rightarrow> ('u, 'd) SofaNodeMapper" where
  "after_sync dir m =
     (case mover_of dir m of
        None \<Rightarrow> m
      | Some f \<Rightarrow> if run_once f \<and> \<not> has_run dir m then set_has_run dir m else m)"

text \<open>The registry of the class of an argument of \<^verbatim>\<open>setupScene\<close>.\<close>

fun arg_mappers :: "('u, 'd) container_arg \<Rightarrow> (string \<times> ('u, 'd) SofaNodeMapper) list" where
  "arg_mappers (Container pn) = sofa_node_mappers pn"
| "arg_mappers _ = []"

text \<open>The fields of the container and the graph after the movers of a direction have been
  called one after the other, each on the node of its descriptor.\<close>

fun data_after ::
  "direction \<Rightarrow> (string \<times> ('u, 'd) SofaNodeMapper) list
     \<Rightarrow> 'u param_fields \<times> 'd sofa_node option \<Rightarrow> 'u param_fields \<times> 'd sofa_node option" where
  "data_after dir [] pg = pg"
| "data_after dir ((k, m) # ms) (p, g) =
     data_after dir ms
       (case mover_of dir m of
          None \<Rightarrow> (p, g)
        | Some f \<Rightarrow>
            if run_once f \<and> has_run dir m then (p, g)
            else (case resolve g (nodeName m) of
                    Inl e \<Rightarrow> (p, g)
                  | Inr node \<Rightarrow> state_of (call f p g node)))"

section \<open>Running the simulation step by step\<close>

text \<open>\<^verbatim>\<open>simulationStep\<close> called \<open>n\<close> times in a row; the caller goes on after an exception, with
  the state the failed call has left.\<close>

fun steps :: "nat \<Rightarrow> ('u, 'd) logic \<Rightarrow> ('u, 'd) logic" where
  "steps 0 st = st"
| "steps (Suc n) st = steps n (state_of (simulationStep st))"

text \<open>What the lines 205 to 211 do to the control fields.\<close>

fun next_ctl :: "int \<times> int \<times> bool \<Rightarrow> int \<times> int \<times> bool" where
  "next_ctl (bound, step, run) =
     (if step < bound then (bound, step + 1, run)
      else if bound < 0 then (bound, step, run)
      else (bound, step, False))"

text \<open>The states in which the scene is up, over a graph with the given names, with
  well-behaved movers whose input nodes resolve, and with the given control fields.  They
  are the states that \<^verbatim>\<open>setupScene\<close> produces and that the other calls keep, apart from
  \<^verbatim>\<open>clean\<close>.\<close>

definition stepping :: "string list \<Rightarrow> int \<times> int \<times> bool \<Rightarrow> ('u, 'd) logic \<Rightarrow> bool" where
  "stepping names c st =
     (sceneUp st \<and>
      (\<exists>pn g. parameterNode st = Some pn \<and> rootNode st = Some g \<and> children g = names
         \<and> each_mover well_behaved (sofa_node_mappers pn)
         \<and> resolvable Input names (sofa_node_mappers pn)
         \<and> ctl (attrs pn) = c))"

section \<open>A container with three movers\<close>

text \<open>The field \<open>mesh\<close> is bound to the node \<open>FEM\<close>, with an input mover that runs once and
  an output mover; the field \<open>force\<close> is bound to the root, with an input mover that runs
  at every step.\<close>

definition load_mesh :: "(int, int) mover" where
  "load_mesh =
     \<lparr>run_once = True,
      call = (\<lambda>p g node. Returned (p, map_option (\<lambda>n. n\<lparr>payload := 0\<rparr>) g))\<rparr>"

definition push_value :: "(int, int) mover" where
  "push_value =
     \<lparr>run_once = False,
      call = (\<lambda>p g node. Returned (p, map_option (\<lambda>n. n\<lparr>payload := user p\<rparr>) g))\<rparr>"

definition pull_value :: "(int, int) mover" where
  "pull_value =
     \<lparr>run_once = False,
      call = (\<lambda>p g node.
                Returned (case g of None \<Rightarrow> p | Some n \<Rightarrow> p\<lparr>user := payload n\<rparr>, g))\<rparr>"

definition example_mappers :: "(string \<times> (int, int) SofaNodeMapper) list" where
  "example_mappers =
     [(''mesh'', \<lparr>nodeName = Some ''FEM'', type_hint = None, recordSequence = False,
                  inputMapping = Some load_mesh, outputMapping = Some pull_value,
                  inputMapping_has_run = False, outputMapping_has_run = False\<rparr>),
      (''force'', \<lparr>nodeName = None, type_hint = None, recordSequence = False,
                   inputMapping = Some push_value, outputMapping = None,
                   inputMapping_has_run = False, outputMapping_has_run = False\<rparr>)]"

definition example_container :: "(int, int) container" where
  "example_container =
     \<lparr>attrs = \<lparr>dt = 1 / 100, totalSteps = 2, currentStep = 0, isSimulationRunning = False,
               sofaParameterNodeWrapped = True, user = 5\<rparr>,
      sofa_node_mappers = example_mappers\<rparr>"

definition example_root :: "int sofa_node" where
  "example_root = \<lparr>children = [''FEM''], payload = 7\<rparr>"

definition example_built :: "(int, int) logic" where
  "example_built =
     state_of (setupScene SlicerSofaLogic_init (Container example_container) (IsNode example_root))"

text \<open>The same container with the default of line 94, no bound on the steps.\<close>

definition example_unbounded :: "(int, int) logic" where
  "example_unbounded =
     state_of (setupScene SlicerSofaLogic_init
       (Container (example_container\<lparr>attrs := (attrs example_container)\<lparr>totalSteps := - 1\<rparr>\<rparr>))
       (IsNode example_root))"



section \<open>Properties of the synchronisation loops\<close>

lemma sync_entry_cases [consumes 0, case_names skip unresolved raised returned]:
  obtains
    (skip) "skipped dir m" "sync_entry dir k m s = Returned (m, s)"
  | (unresolved) f e where "mover_of dir m = Some f" "\<not> (run_once f \<and> has_run dir m)"
      "resolve (env_root s) (nodeName m) = Inl e"
      "sync_entry dir k m s = Raised e (m, s\<lparr>env_trace := env_trace s @ [Resolve dir k]\<rparr>)"
  | (raised) f node e p g where "mover_of dir m = Some f" "\<not> (run_once f \<and> has_run dir m)"
      "resolve (env_root s) (nodeName m) = Inr node"
      "call f (env_fields s) (env_root s) node = Raised e (p, g)"
      "sync_entry dir k m s =
         Raised e (m, \<lparr>env_fields = p, env_root = g,
                       env_trace = env_trace s @ [Resolve dir k, Invoke dir k]\<rparr>)"
  | (returned) f node p g where "mover_of dir m = Some f" "\<not> (run_once f \<and> has_run dir m)"
      "resolve (env_root s) (nodeName m) = Inr node"
      "call f (env_fields s) (env_root s) node = Returned (p, g)"
      "sync_entry dir k m s =
         Returned (if run_once f then set_has_run dir m else m,
                   \<lparr>env_fields = p, env_root = g,
                    env_trace = env_trace s @ [Resolve dir k, Invoke dir k]\<rparr>)"
proof (cases "mover_of dir m")
  case None
  then show ?thesis using skip by (simp add: skipped_def sync_entry_def)
next
  case (Some f)
  show ?thesis
  proof (cases "run_once f \<and> has_run dir m")
    case True
    then show ?thesis using Some skip by (simp add: skipped_def sync_entry_def)
  next
    case nskip: False
    then have unfold: "sync_entry dir k m s =
        (let s1 = s\<lparr>env_trace := env_trace s @ [Resolve dir k]\<rparr> in
         case resolve (env_root s1) (nodeName m) of
           Inl e \<Rightarrow> Raised e (m, s1)
         | Inr node \<Rightarrow>
             (let s2 = s1\<lparr>env_trace := env_trace s1 @ [Invoke dir k]\<rparr> in
              case call f (env_fields s2) (env_root s2) node of
                Raised e (p, g) \<Rightarrow> Raised e (m, s2\<lparr>env_fields := p, env_root := g\<rparr>)
              | Returned (p, g) \<Rightarrow>
                  Returned (if run_once f then set_has_run dir m else m,
                            s2\<lparr>env_fields := p, env_root := g\<rparr>)))"
      unfolding sync_entry_def using Some by (simp only: option.case if_False)
    show ?thesis
    proof (cases "resolve (env_root s) (nodeName m)")
      case (Inl e)
      have "sync_entry dir k m s = Raised e (m, s\<lparr>env_trace := env_trace s @ [Resolve dir k]\<rparr>)"
        using Inl by (simp add: unfold)
      then show ?thesis using Some nskip Inl by (rule unresolved[rotated 3])
    next
      case (Inr node)
      show ?thesis
      proof (cases "call f (env_fields s) (env_root s) node")
        case (Returned pg)
        obtain p g where pg: "pg = (p, g)" by (cases pg)
        have "sync_entry dir k m s =
           Returned (if run_once f then set_has_run dir m else m,
                   \<lparr>env_fields = p, env_root = g,
                    env_trace = env_trace s @ [Resolve dir k, Invoke dir k]\<rparr>)"
          using Inr Returned pg by (simp add: unfold)
        then show ?thesis using Some nskip Inr Returned[unfolded pg] by (rule returned[rotated 4])
      next
        case (Raised e pg)
        obtain p g where pg: "pg = (p, g)" by (cases pg)
        have "sync_entry dir k m s =
           Raised e (m, \<lparr>env_fields = p, env_root = g,
                       env_trace = env_trace s @ [Resolve dir k, Invoke dir k]\<rparr>)"
          using Inr Raised pg by (simp add: unfold)
        then show ?thesis using Some nskip Inr Raised[unfolded pg] by (rule raised[rotated 4])
      qed
    qed
  qed
qed

lemma later_refl: "later m m"
  by (simp add: later_def)

lemma later_trans: "later a b \<Longrightarrow> later b c \<Longrightarrow> later a c"
  by (simp add: later_def)

lemma later_set_has_run: "later m (set_has_run dir m)"
  by (cases dir) (simp_all add: later_def)

lemma later_mover_of: "later m m' \<Longrightarrow> mover_of dir m' = mover_of dir m"
  by (cases dir) (simp_all add: later_def)

lemma later_has_run: "later m m' \<Longrightarrow> has_run dir m \<Longrightarrow> has_run dir m'"
  by (cases dir) (simp_all add: later_def)

lemma later_skipped: "later m m' \<Longrightarrow> skipped dir m \<Longrightarrow> skipped dir m'"
  by (auto simp: skipped_def later_mover_of dest: later_has_run split: option.splits)

lemma evolves_refl: "evolves ms ms"
  by (simp add: evolves_def list_all2_refl later_refl)

lemma evolves_trans:
  assumes "evolves a b" and "evolves b c"
  shows "evolves a c"
  using assms unfolding evolves_def
  by (rule list_all2_trans[rotated]) (auto intro: later_trans)

lemma evolves_Cons:
  "evolves ((k, m) # ms) ((k', m') # ms') \<longleftrightarrow> k' = k \<and> later m m' \<and> evolves ms ms'"
  by (simp add: evolves_def)

lemma evolves_keys: "evolves ms ms' \<Longrightarrow> map fst ms' = map fst ms"
  unfolding evolves_def by (induction rule: list_all2_induct) simp_all

lemma evolves_each_mover: "evolves ms ms' \<Longrightarrow> each_mover P ms' = each_mover P ms"
  unfolding evolves_def each_mover_def
  by (induction rule: list_all2_induct) (auto simp: later_def)

lemma sync_entry_later: "later m (fst (state_of (sync_entry dir k m s)))"
  by (rule sync_entry_cases[where dir = dir and m = m and k = k and s = s])
     (simp_all add: later_refl later_set_has_run)

lemma sync_loop_evolves: "evolves ms (fst (state_of (sync_loop dir ms s)))"
proof (induction ms arbitrary: s)
  case Nil
  then show ?case by (simp add: evolves_def)
next
  case (Cons km ms)
  obtain k m where km: "km = (k, m)" by (cases km)
  show ?case
  proof (cases "sync_entry dir k m s")
    case (Raised e r)
    then show ?thesis using sync_entry_later[of m dir k s] km
      by (cases r) (simp add: evolves_Cons evolves_refl)
  next
    case (Returned r)
    obtain m' s' where r: "r = (m', s')" by (cases r)
    have l: "later m m'" using sync_entry_later[of m dir k s] Returned r by simp
    have "evolves ms (fst (state_of (sync_loop dir ms s')))" by (rule Cons.IH)
    then show ?thesis using Returned r km l
      by (cases "sync_loop dir ms s'") (auto simp: evolves_Cons split: prod.splits)
  qed
qed

lemma sync_loop_rel:
  assumes refl: "\<And>s. R s s"
    and trans: "\<And>a b c. R a b \<Longrightarrow> R b c \<Longrightarrow> R a c"
    and entry: "\<And>k m s. (k, m) \<in> set ms \<Longrightarrow> R s (snd (state_of (sync_entry dir k m s)))"
  shows "R s (snd (state_of (sync_loop dir ms s)))"
  using entry
proof (induction ms arbitrary: s)
  case Nil
  show ?case by (simp add: refl)
next
  case (Cons km ms)
  obtain k m where km: "km = (k, m)" by (cases km)
  have head: "R s (snd (state_of (sync_entry dir k m s)))"
    using Cons.prems[of k m s] km by simp
  show ?case
  proof (cases "sync_entry dir k m s")
    case (Raised e r)
    then show ?thesis using head km by (cases r) simp
  next
    case (Returned r)
    obtain m' s' where r: "r = (m', s')" by (cases r)
    have "R s' (snd (state_of (sync_loop dir ms s')))"
      by (rule Cons.IH) (simp add: Cons.prems)
    moreover have "R s s'" using head Returned r by simp
    ultimately have "R s (snd (state_of (sync_loop dir ms s')))" by (rule trans[rotated])
    then show ?thesis using Returned r km
      by (cases "sync_loop dir ms s'") (auto split: prod.splits)
  qed
qed

lemma each_mover_member:
  "each_mover P ms \<Longrightarrow> (k, m) \<in> set ms \<Longrightarrow> mover_of dir m = Some f \<Longrightarrow> P f"
  by (cases dir) (force simp: each_mover_def list_all_iff)+

lemma sync_entry_ctl:
  assumes "\<And>f. mover_of dir m = Some f \<Longrightarrow> keeps_control f"
  shows "ctl (env_fields (snd (state_of (sync_entry dir k m s)))) = ctl (env_fields s)"
proof (rule sync_entry_cases[where dir = dir and m = m and k = k and s = s])
  fix f node e p g
  assume "mover_of dir m = Some f"
    and c: "call f (env_fields s) (env_root s) node = Raised e (p, g)"
    and r: "sync_entry dir k m s =
         Raised e (m, \<lparr>env_fields = p, env_root = g,
                       env_trace = env_trace s @ [Resolve dir k, Invoke dir k]\<rparr>)"
  then have "keeps_control f" using assms by simp
  then have "ctl (fst (state_of (call f (env_fields s) (env_root s) node))) = ctl (env_fields s)"
    unfolding keeps_control_def by blast
  then show ?thesis using c r by simp
next
  fix f node p g
  assume "mover_of dir m = Some f"
    and c: "call f (env_fields s) (env_root s) node = Returned (p, g)"
    and r: "sync_entry dir k m s =
         Returned (if run_once f then set_has_run dir m else m,
                   \<lparr>env_fields = p, env_root = g,
                    env_trace = env_trace s @ [Resolve dir k, Invoke dir k]\<rparr>)"
  then have "keeps_control f" using assms by simp
  then have "ctl (fst (state_of (call f (env_fields s) (env_root s) node))) = ctl (env_fields s)"
    unfolding keeps_control_def by blast
  then show ?thesis using c r by simp
qed simp_all

lemma sync_loop_ctl:
  assumes "each_mover keeps_control ms"
  shows "ctl (env_fields (snd (state_of (sync_loop dir ms s)))) = ctl (env_fields s)"
proof -
  let ?R = "\<lambda>a b :: ('a, 'b) sync_env. ctl (env_fields b) = ctl (env_fields a)"
  have "?R s (snd (state_of (sync_loop dir ms s)))"
  proof (rule sync_loop_rel[where R = ?R])
    fix k m s
    assume "(k, m) \<in> set ms"
    then show "ctl (env_fields (snd (state_of (sync_entry dir k m s)))) = ctl (env_fields s)"
      using assms by (intro sync_entry_ctl) (rule each_mover_member)
  qed simp_all
  then show ?thesis .
qed

lemma well_behaved_keeps_control: "well_behaved f \<Longrightarrow> keeps_control f"
  by (simp add: well_behaved_def keeps_control_def)

lemma each_mover_mono:
  "(\<And>f. P f \<Longrightarrow> Q f) \<Longrightarrow> each_mover P ms \<Longrightarrow> each_mover Q ms"
proof -
  assume imp: "\<And>f. P f \<Longrightarrow> Q f" and "each_mover P ms"
  have "holds_for P x \<Longrightarrow> holds_for Q x" for x by (cases x) (simp_all add: imp)
  then show ?thesis using \<open>each_mover P ms\<close> by (auto simp: each_mover_def list_all_iff)
qed

lemma sync_entry_children:
  assumes "\<And>f. mover_of dir m = Some f \<Longrightarrow> well_behaved f"
  shows "map_option children (env_root (snd (state_of (sync_entry dir k m s))))
           = map_option children (env_root s)"
proof (rule sync_entry_cases[where dir = dir and m = m and k = k and s = s])
  fix f node e p g
  assume "mover_of dir m = Some f"
    and c: "call f (env_fields s) (env_root s) node = Raised e (p, g)"
  then have "well_behaved f" using assms by simp
  then have "has_returned (call f (env_fields s) (env_root s) node)"
    unfolding well_behaved_def by blast
  then show ?thesis using c by simp
next
  fix f node p g
  assume "mover_of dir m = Some f"
    and c: "call f (env_fields s) (env_root s) node = Returned (p, g)"
    and r: "sync_entry dir k m s =
         Returned (if run_once f then set_has_run dir m else m,
                   \<lparr>env_fields = p, env_root = g,
                    env_trace = env_trace s @ [Resolve dir k, Invoke dir k]\<rparr>)"
  then have "well_behaved f" using assms by simp
  then have "map_option children (snd (state_of (call f (env_fields s) (env_root s) node)))
               = map_option children (env_root s)"
    unfolding well_behaved_def by blast
  then show ?thesis using c r by simp
qed simp_all

lemma sync_loop_children:
  assumes "each_mover well_behaved ms"
  shows "map_option children (env_root (snd (state_of (sync_loop dir ms s))))
           = map_option children (env_root s)"
proof -
  let ?R = "\<lambda>a b :: ('a, 'b) sync_env.
              map_option children (env_root b) = map_option children (env_root a)"
  have "?R s (snd (state_of (sync_loop dir ms s)))"
  proof (rule sync_loop_rel[where R = ?R])
    fix k m s
    assume "(k, m) \<in> set ms"
    then show "map_option children (env_root (snd (state_of (sync_entry dir k m s))))
                 = map_option children (env_root s)"
      using assms by (intro sync_entry_children) (rule each_mover_member)
  qed simp_all
  then show ?thesis .
qed

lemma sync_entry_trace:
  assumes "skipped dir m \<or> (\<not> Q (Resolve dir k) \<and> \<not> Q (Invoke dir k))"
  shows "filter Q (env_trace (snd (state_of (sync_entry dir k m s)))) = filter Q (env_trace s)"
  using assms
  by (rule_tac sync_entry_cases[where dir = dir and m = m and k = k and s = s])
     (auto simp: skipped_def)

lemma sync_loop_trace:
  assumes "\<And>k m. (k, m) \<in> set ms \<Longrightarrow>
             skipped dir m \<or> (\<not> Q (Resolve dir k) \<and> \<not> Q (Invoke dir k))"
  shows "filter Q (env_trace (snd (state_of (sync_loop dir ms s)))) = filter Q (env_trace s)"
proof -
  let ?R = "\<lambda>a b :: ('a, 'b) sync_env. filter Q (env_trace b) = filter Q (env_trace a)"
  have "?R s (snd (state_of (sync_loop dir ms s)))"
  proof (rule sync_loop_rel[where R = ?R])
    fix k m s
    assume "(k, m) \<in> set ms"
    then show "filter Q (env_trace (snd (state_of (sync_entry dir k m s))))
                 = filter Q (env_trace s)"
      by (intro sync_entry_trace assms)
  qed simp_all
  then show ?thesis .
qed

lemma resolves_resolve: "resolves (children g) name \<Longrightarrow> \<exists>node. resolve (Some g) name = Inr node"
  by (auto simp: resolves_def resolve_def split: option.splits)

lemma resolve_resolves: "resolve (Some g) name = Inr node \<Longrightarrow> resolves (children g) name"
  by (auto simp: resolves_def resolve_def split: option.splits if_splits)

lemma sync_entry_returns:
  assumes wb: "\<And>f. mover_of dir m = Some f \<Longrightarrow> well_behaved f"
    and root: "env_root s = Some g"
    and ok: "skipped dir m \<or> resolves (children g) (nodeName m)"
  shows "has_returned (sync_entry dir k m s)"
proof (rule sync_entry_cases[where dir = dir and m = m and k = k and s = s])
  fix f e
  assume "mover_of dir m = Some f" "\<not> (run_once f \<and> has_run dir m)"
    and "resolve (env_root s) (nodeName m) = Inl e"
  then show ?thesis using ok root resolves_resolve[of g "nodeName m"]
    by (auto simp: skipped_def)
next
  fix f node e p g'
  assume "mover_of dir m = Some f"
    and c: "call f (env_fields s) (env_root s) node = Raised e (p, g')"
  then have "well_behaved f" using wb by simp
  then have "has_returned (call f (env_fields s) (env_root s) node)"
    unfolding well_behaved_def by blast
  then show ?thesis using c by simp
qed simp_all

lemma sync_entry_resolved:
  assumes root: "env_root s = Some g"
    and ret: "has_returned (sync_entry dir k m s)"
  shows "skipped dir m \<or> resolves (children g) (nodeName m)"
  using ret
  by (rule_tac sync_entry_cases[where dir = dir and m = m and k = k and s = s])
     (auto simp: root dest: resolve_resolves)

lemma children_Some:
  "map_option children r = map_option children (Some g) \<Longrightarrow> \<exists>g'. r = Some g' \<and> children g' = children g"
  by (cases r) simp_all

lemma resolvable_Cons:
  "resolvable dir names ((k, m) # ms) \<longleftrightarrow>
     (skipped dir m \<or> resolves names (nodeName m)) \<and> resolvable dir names ms"
  by (simp add: resolvable_def)

lemma each_mover_Cons:
  "each_mover P ((k, m) # ms) \<longleftrightarrow>
     holds_for P (inputMapping m) \<and> holds_for P (outputMapping m) \<and> each_mover P ms"
  by (simp add: each_mover_def)

lemma each_mover_head:
  "each_mover P ((k, m) # ms) \<Longrightarrow> mover_of dir m = Some f \<Longrightarrow> P f"
  using each_mover_member[of P "(k, m) # ms" k m dir f] by simp

lemma sync_loop_returns:
  assumes "each_mover well_behaved ms" and "env_root s = Some g"
    and "resolvable dir (children g) ms"
  shows "has_returned (sync_loop dir ms s)"
  using assms
proof (induction ms arbitrary: s g)
  case Nil
  show ?case by simp
next
  case (Cons km ms)
  obtain k m where km: "km = (k, m)" by (cases km)
  have wb: "\<And>f. mover_of dir m = Some f \<Longrightarrow> well_behaved f"
    using Cons.prems(1) km by (auto intro: each_mover_head)
  have "has_returned (sync_entry dir k m s)"
    using wb Cons.prems(2,3) km by (intro sync_entry_returns) (auto simp: resolvable_Cons)
  then obtain m' s' where r: "sync_entry dir k m s = Returned (m', s')"
    by (cases "sync_entry dir k m s") auto
  have "map_option children (env_root s') = map_option children (env_root s)"
    using sync_entry_children[of dir m k s, OF wb] r by simp
  then obtain g' where g': "env_root s' = Some g'" "children g' = children g"
    using Cons.prems(2) children_Some[of "env_root s'" g] by auto
  have "has_returned (sync_loop dir ms s')"
    using Cons.prems(1,3) km g' by (intro Cons.IH[of s' g']) (simp_all add: resolvable_Cons each_mover_Cons)
  then show ?case using r km by (cases "sync_loop dir ms s'") (auto split: prod.splits)
qed

lemma resolvable_evolves:
  "evolves ms ms' \<Longrightarrow> resolvable dir names ms \<Longrightarrow> resolvable dir names ms'"
  unfolding evolves_def resolvable_def
proof (induction rule: list_all2_induct)
  case Nil
  then show ?case by simp
next
  case (Cons x xs y ys)
  then show ?case using later_skipped[of "snd x" "snd y" dir] by (auto simp: later_def)
qed

lemma sync_loop_resolved:
  assumes "each_mover well_behaved ms" and "env_root s = Some g"
    and "has_returned (sync_loop dir ms s)"
  shows "resolvable dir (children g) (fst (state_of (sync_loop dir ms s)))"
  using assms
proof (induction ms arbitrary: s g)
  case Nil
  show ?case by (simp add: resolvable_def)
next
  case (Cons km ms)
  obtain k m where km: "km = (k, m)" by (cases km)
  have wb: "\<And>f. mover_of dir m = Some f \<Longrightarrow> well_behaved f"
    using Cons.prems(1) km by (auto intro: each_mover_head)
  obtain m' s' where r: "sync_entry dir k m s = Returned (m', s')"
    using Cons.prems(3) km by (cases "sync_entry dir k m s") auto
  have head: "skipped dir m \<or> resolves (children g) (nodeName m)"
    using sync_entry_resolved[OF Cons.prems(2), of dir k m] r by simp
  have l: "later m m'" using sync_entry_later[of m dir k s] r by simp
  have head': "skipped dir m' \<or> resolves (children g) (nodeName m')"
    using head l later_skipped[OF l, of dir] by (auto simp: later_def)
  have "map_option children (env_root s') = map_option children (env_root s)"
    using sync_entry_children[of dir m k s, OF wb] r by simp
  then obtain g' where g': "env_root s' = Some g'" "children g' = children g"
    using Cons.prems(2) children_Some[of "env_root s'" g] by auto
  have ret: "has_returned (sync_loop dir ms s')"
    using Cons.prems(3) r km by (cases "sync_loop dir ms s'") (auto split: prod.splits)
  have "resolvable dir (children g') (fst (state_of (sync_loop dir ms s')))"
    using Cons.prems(1) km g' ret by (intro Cons.IH[of s' g']) (simp_all add: each_mover_Cons)
  then show ?case using r km head' g' ret
    by (cases "sync_loop dir ms s'") (auto simp: resolvable_Cons split: prod.splits)
qed

lemma update_state:
  assumes "parameterNode st = Some pn"
  shows "state_of (update dir st) =
           st\<lparr>rootNode := env_root (snd (state_of (loop_of dir st pn))),
              parameterNode := Some \<lparr>attrs = env_fields (snd (state_of (loop_of dir st pn))),
                                     sofa_node_mappers = fst (state_of (loop_of dir st pn))\<rparr>,
              trace := env_trace (snd (state_of (loop_of dir st pn)))\<rparr>"
  using assms
  by (cases "loop_of dir st pn") (simp_all add: update_def loop_of_def store_env_def Let_def)

lemma update_returned:
  assumes "parameterNode st = Some pn"
  shows "has_returned (update dir st) = has_returned (loop_of dir st pn)"
  using assms
  by (cases "loop_of dir st pn") (simp_all add: update_def loop_of_def Let_def)

lemma update_None:
  assumes "parameterNode st = None"
  shows "update dir st =
           Raised (AttributeError ''__sofa_node_mappers__'') (st\<lparr>trace := trace st @ [EnterSync dir]\<rparr>)"
  using assms by (simp add: update_def Let_def)

lemma update_sceneUp: "sceneUp (state_of (update dir st)) = sceneUp st"
  by (cases "parameterNode st") (simp_all add: update_None update_state)

lemma update_parameterNode:
  assumes "parameterNode st = Some pn"
  shows "\<exists>pn'. parameterNode (state_of (update dir st)) = Some pn'
           \<and> evolves (sofa_node_mappers pn) (sofa_node_mappers pn')
           \<and> (each_mover keeps_control (sofa_node_mappers pn) \<longrightarrow> ctl (attrs pn') = ctl (attrs pn))"
proof -
  let ?r = "state_of (loop_of dir st pn)"
  let ?pn' = "\<lparr>attrs = env_fields (snd ?r), sofa_node_mappers = fst ?r\<rparr>"
  have "parameterNode (state_of (update dir st)) = Some ?pn'"
    by (simp add: update_state[OF assms])
  moreover have "evolves (sofa_node_mappers pn) (sofa_node_mappers ?pn')"
    by (simp add: loop_of_def sync_loop_evolves)
  moreover have "ctl (attrs ?pn') = ctl (attrs pn)"
    if "each_mover keeps_control (sofa_node_mappers pn)"
    using sync_loop_ctl[OF that] by (simp add: loop_of_def)
  ultimately show ?thesis by blast
qed

lemma update_children:
  assumes "parameterNode st = Some pn" and "each_mover well_behaved (sofa_node_mappers pn)"
  shows "map_option children (rootNode (state_of (update dir st))) = map_option children (rootNode st)"
  using sync_loop_children[OF assms(2)] by (simp add: update_state[OF assms(1)] loop_of_def)

lemma update_trace:
  assumes "parameterNode st = Some pn"
    and "\<not> Q (EnterSync dir)"
    and "\<And>k m. (k, m) \<in> set (sofa_node_mappers pn) \<Longrightarrow>
           skipped dir m \<or> (\<not> Q (Resolve dir k) \<and> \<not> Q (Invoke dir k))"
  shows "filter Q (trace (state_of (update dir st))) = filter Q (trace st)"
  using sync_loop_trace[where Q = Q and dir = dir and ms = "sofa_node_mappers pn", OF assms(3)] assms(2)
  by (simp add: update_state[OF assms(1)] loop_of_def)

lemma update_has_returned:
  assumes "parameterNode st = Some pn" and "each_mover well_behaved (sofa_node_mappers pn)"
    and "rootNode st = Some g" and "resolvable dir (children g) (sofa_node_mappers pn)"
  shows "has_returned (update dir st)"
  unfolding update_returned[OF assms(1)] loop_of_def
  by (rule sync_loop_returns[OF assms(2) _ assms(4)]) (simp add: assms(3))
section \<open>Properties of setup, of sequences of loops and of teardown\<close>

lemma update_trace_entry:
  assumes "\<And>pn k m. parameterNode st = Some pn \<Longrightarrow> (k, m) \<in> set (sofa_node_mappers pn) \<Longrightarrow>
           skipped dir m \<or> (\<not> Q (Resolve dir k) \<and> \<not> Q (Invoke dir k))"
  shows "filter Q (trace (state_of (update dir st))) = filter Q (trace st @ [EnterSync dir])"
proof (cases "parameterNode st")
  case None
  then show ?thesis by (simp add: update_None)
next
  case (Some pn)
  have "filter Q (env_trace (snd (state_of (loop_of dir st pn)))) = filter Q (trace st @ [EnterSync dir])"
    unfolding loop_of_def
    using sync_loop_trace[where Q = Q and dir = dir and ms = "sofa_node_mappers pn"] assms[OF Some]
    by simp
  then show ?thesis by (simp add: update_state[OF Some])
qed

lemma checkParameterNode_Inr:
  "checkParameterNode p = Inr pn \<longleftrightarrow> p = Container pn \<and> sofaParameterNodeWrapped (attrs pn)"
  by (cases p) auto

lemma setupScene_Returned:
  assumes "\<not> sceneUp st" and "setupScene st p r = Returned st'"
  obtains pn g st3 where "p = Container pn" "r = IsNode g" "sofaParameterNodeWrapped (attrs pn)"
    "updateSofa (st\<lparr>parameterNode := Some pn, rootNode := Some g\<rparr>) = Returned st3"
    "st' = st3\<lparr>trace := trace st3 @ [SimInit], sceneUp := True\<rparr>"
proof (cases "checkParameterNode p")
  case (Inl e)
  then show ?thesis using assms by (simp add: setupScene_def)
next
  case (Inr pn)
  then have p: "p = Container pn" "sofaParameterNodeWrapped (attrs pn)"
    by (simp_all add: checkParameterNode_Inr)
  show ?thesis
  proof (cases r)
    case NotANode
    then show ?thesis using assms Inr by (simp add: setupScene_def)
  next
    case (IsNode g)
    show ?thesis
    proof (cases "updateSofa (st\<lparr>parameterNode := Some pn, rootNode := Some g\<rparr>)")
      case (Raised e st3)
      then show ?thesis using assms Inr IsNode by (simp add: setupScene_def)
    next
      case (Returned st3)
      then have "st' = st3\<lparr>trace := trace st3 @ [SimInit], sceneUp := True\<rparr>"
        using assms Inr IsNode by (simp add: setupScene_def)
      then show ?thesis using p(1) IsNode p(2) Returned by (rule that[rotated 4])
    qed
  qed
qed

lemma setupScene_built: "sceneUp st \<Longrightarrow> setupScene st p r = Returned st"
  by (simp add: setupScene_def)

lemma setupScene_calls_built: "sceneUp st \<Longrightarrow> setupScene_calls calls st = st"
  by (induction calls arbitrary: st) (auto simp: setupScene_built)

lemma checkParameterNode_missing_attribute:
  "\<not> sceneUp st \<Longrightarrow>
     setupScene st NoAttribute r = Raised (AttributeError ''sofaParameterNodeWrapped'') st"
  by (simp add: setupScene_def)








lemma evolves_quiet: "evolves ms ms' \<Longrightarrow> quiet dir k ms \<Longrightarrow> quiet dir k ms'"
  unfolding evolves_def quiet_def
  by (induction rule: list_all2_induct) (auto dest: later_skipped)

lemma evolves_member:
  "evolves ms ms' \<Longrightarrow> (k, m) \<in> set ms \<Longrightarrow> \<exists>m'. (k, m') \<in> set ms' \<and> later m m'"
  unfolding evolves_def
proof (induction rule: list_all2_induct)
  case Nil
  then show ?case by simp
next
  case (Cons x xs y ys)
  then show ?case by (cases y) auto
qed

lemma distinct_key_unique:
  "distinct (map fst ms) \<Longrightarrow> (k, m) \<in> set ms \<Longrightarrow> (k, m') \<in> set ms \<Longrightarrow> m' = m"
  by (induction ms) (auto simp: image_iff)

lemma distinct_quiet:
  assumes "distinct (map fst ms)" and "(k, m) \<in> set ms" and "skipped dir m"
  shows "quiet dir k ms"
  unfolding quiet_def list_all_iff
proof (intro ballI impI)
  fix km assume "km \<in> set ms" and "fst km = k"
  then have "(k, snd km) \<in> set ms" by (cases km) auto
  then have "snd km = m" using assms(1,2) by (rule distinct_key_unique[rotated 2])
  then show "skipped dir (snd km)" using assms(3) by simp
qed





lemma update_quiet:
  assumes "parameterNode st = Some pn" and "quiet dir k (sofa_node_mappers pn)"
  shows "filter (touches dir k) (trace (state_of (update d st))) = filter (touches dir k) (trace st)"
proof -
  have "filter (touches dir k) (trace (state_of (update d st)))
          = filter (touches dir k) (trace st @ [EnterSync d])"
  proof (rule update_trace_entry)
    fix pn' k' m
    assume "parameterNode st = Some pn'" and mem: "(k', m) \<in> set (sofa_node_mappers pn')"
    then have "pn' = pn" using assms(1) by simp
    then have "k' = k \<longrightarrow> skipped dir m"
      using assms(2) mem by (auto simp: quiet_def list_all_iff)
    then show "skipped d m \<or> (\<not> touches dir k (Resolve d k') \<and> \<not> touches dir k (Invoke d k'))"
      by (auto simp: touches_def)
  qed
  then show ?thesis by (simp add: touches_def)
qed

lemma syncs_quiet:
  assumes "parameterNode st = Some pn" and "quiet dir k (sofa_node_mappers pn)"
  shows "filter (touches dir k) (trace (syncs ds st)) = filter (touches dir k) (trace st)"
  using assms
proof (induction ds arbitrary: st pn)
  case Nil
  show ?case by simp
next
  case (Cons d ds)
  obtain pn' where pn': "parameterNode (state_of (update d st)) = Some pn'"
    and ev: "evolves (sofa_node_mappers pn) (sofa_node_mappers pn')"
    using update_parameterNode[OF Cons.prems(1), of d] by blast
  have "quiet dir k (sofa_node_mappers pn')" using ev Cons.prems(2) by (rule evolves_quiet)
  then have "filter (touches dir k) (trace (syncs ds (state_of (update d st))))
               = filter (touches dir k) (trace (state_of (update d st)))"
    using pn' by (intro Cons.IH)
  then show ?case using update_quiet[OF Cons.prems] by simp
qed

lemma clean_container:
  assumes "parameterNode st = Some pn"
  shows "\<exists>pn1. parameterNode (state_of (clean st)) = Some pn1
           \<and> sofa_node_mappers pn1 = sofa_node_mappers pn
           \<and> filter (touches d k) (trace (state_of (clean st))) = filter (touches d k) (trace st)"
proof (cases "sceneUp st \<and> rootNode st \<noteq> None")
  case True
  let ?pn1 = "pn\<lparr>attrs := (attrs pn)\<lparr>isSimulationRunning := False\<rparr>\<rparr>"
  have "clean st =
          Returned (st\<lparr>trace := trace st @ [SimUnload], rootNode := None, sceneUp := False,
             parameterNode := Some ?pn1\<rparr>)"
    using True assms unfolding clean_def set_fields_def by simp
  then show ?thesis by (simp add: touches_def)
next
  case False
  then have "clean st = Returned st" unfolding clean_def by auto
  then show ?thesis using assms by simp
qed

lemma setupScene_container:
  assumes "parameterNode st = Some pn"
  shows "\<exists>pn'. parameterNode (state_of (setupScene st (Container pn) r)) = Some pn'
           \<and> evolves (sofa_node_mappers pn) (sofa_node_mappers pn')
           \<and> (quiet d k (sofa_node_mappers pn) \<longrightarrow>
                filter (touches d k) (trace (state_of (setupScene st (Container pn) r)))
                  = filter (touches d k) (trace st))"
proof (cases "sceneUp st \<or> \<not> sofaParameterNodeWrapped (attrs pn) \<or> r = NotANode")
  case True
  then have "state_of (setupScene st (Container pn) r) = st"
    using assms by (auto simp: setupScene_def)
  then show ?thesis using assms by (simp add: evolves_refl)
next
  case False
  then obtain g where r: "r = IsNode g" by (cases r) auto
  let ?st2 = "st\<lparr>parameterNode := Some pn, rootNode := Some g\<rparr>"
  have pn2: "parameterNode ?st2 = Some pn" by simp
  obtain pn' where pn': "parameterNode (state_of (update Input ?st2)) = Some pn'"
    and ev: "evolves (sofa_node_mappers pn) (sofa_node_mappers pn')"
    using update_parameterNode[OF pn2, of Input] by blast
  have tr: "filter (touches d k) (trace (state_of (update Input ?st2)))
              = filter (touches d k) (trace st)"
    if "quiet d k (sofa_node_mappers pn)"
    using update_quiet[OF pn2 that, of Input] by simp
  show ?thesis
  proof (cases "update Input ?st2")
    case (Returned st3)
    then have "state_of (setupScene st (Container pn) r)
                 = st3\<lparr>trace := trace st3 @ [SimInit], sceneUp := True\<rparr>"
      using False r by (simp add: setupScene_def updateSofa_def)
    then show ?thesis using pn' ev tr Returned by (simp add: touches_def)
  next
    case (Raised e st3)
    then have "state_of (setupScene st (Container pn) r) = st3"
      using False r by (simp add: setupScene_def updateSofa_def)
    then show ?thesis using pn' ev tr Raised by simp
  qed
qed

lemma rebuild_container:
  assumes "parameterNode st = Some pn"
  shows "\<exists>pn'. parameterNode (state_of (rebuild st r)) = Some pn'
           \<and> evolves (sofa_node_mappers pn) (sofa_node_mappers pn')
           \<and> (quiet d k (sofa_node_mappers pn) \<longrightarrow>
                filter (touches d k) (trace (state_of (rebuild st r)))
                  = filter (touches d k) (trace st))"
proof -
  obtain pn1 where pn1: "parameterNode (state_of (clean st)) = Some pn1"
    and ms: "sofa_node_mappers pn1 = sofa_node_mappers pn"
    and tr: "filter (touches d k) (trace (state_of (clean st))) = filter (touches d k) (trace st)"
    using clean_container[OF assms, of d k] by blast
  have rb: "rebuild st r = setupScene (state_of (clean st)) (Container pn1) r"
    using pn1 by (simp add: rebuild_def)
  show ?thesis
    using setupScene_container[OF pn1, of r d k] ms tr rb by simp
qed

lemma sync_entry_Returned:
  assumes "sync_entry dir k m s = Returned (m', s')"
  shows "m' = after_sync dir m
     \<and> env_trace s' = env_trace s @ (if skipped dir m then [] else [Resolve dir k, Invoke dir k])"
proof (rule sync_entry_cases[where dir = dir and m = m and k = k and s = s])
  assume sk: "skipped dir m" and r: "sync_entry dir k m s = Returned (m, s)"
  have "after_sync dir m = m"
    using sk by (auto simp: after_sync_def skipped_def split: option.splits)
  then show ?thesis using assms r sk by simp
next
  fix f node p g
  assume mv: "mover_of dir m = Some f" and ns: "\<not> (run_once f \<and> has_run dir m)"
    and r: "sync_entry dir k m s =
         Returned (if run_once f then set_has_run dir m else m,
                   \<lparr>env_fields = p, env_root = g,
                    env_trace = env_trace s @ [Resolve dir k, Invoke dir k]\<rparr>)"
  have "\<not> skipped dir m" using mv ns by (simp add: skipped_def)
  moreover have "after_sync dir m = (if run_once f then set_has_run dir m else m)"
    using mv ns by (auto simp: after_sync_def)
  ultimately show ?thesis using assms r by auto
qed (use assms in simp_all)

lemma sync_loop_Returned:
  assumes "sync_loop dir ms s = Returned (ms', s')"
  shows "ms' = map (\<lambda>km. (fst km, after_sync dir (snd km))) ms
     \<and> env_trace s' = env_trace s @ sync_events dir ms"
  using assms
proof (induction ms arbitrary: s ms' s')
  case Nil
  then show ?case by (simp add: sync_events_def)
next
  case (Cons km ms)
  obtain k m where km: "km = (k, m)" by (cases km)
  obtain m1 s1 where r1: "sync_entry dir k m s = Returned (m1, s1)"
    using Cons.prems km by (cases "sync_entry dir k m s") (auto split: prod.splits)
  obtain ms2 s2 where r2: "sync_loop dir ms s1 = Returned (ms2, s2)"
    using Cons.prems km r1 by (cases "sync_loop dir ms s1") (auto split: prod.splits)
  have res: "ms' = (k, m1) # ms2" "s' = s2"
    using Cons.prems km r1 r2 by simp_all
  have h: "m1 = after_sync dir m"
    "env_trace s1 = env_trace s @ (if skipped dir m then [] else [Resolve dir k, Invoke dir k])"
    using sync_entry_Returned[OF r1] by simp_all
  have t: "ms2 = map (\<lambda>km. (fst km, after_sync dir (snd km))) ms"
    "env_trace s2 = env_trace s1 @ sync_events dir ms"
    using Cons.IH[OF r2] by simp_all
  show ?case using res h t km by (simp add: sync_events_def)
qed

lemma pushes_sync_events: "pushes (t @ sync_events dir ms) = pushes t"
  by (induction ms) (simp_all add: pushes_def sync_events_def)

lemma sync_entry_Returned_data:
  assumes "sync_entry dir k m s = Returned (m', s')"
  shows "(env_fields s', env_root s') =
           (case mover_of dir m of
              None \<Rightarrow> (env_fields s, env_root s)
            | Some f \<Rightarrow>
                if run_once f \<and> has_run dir m then (env_fields s, env_root s)
                else (case resolve (env_root s) (nodeName m) of
                        Inl e \<Rightarrow> (env_fields s, env_root s)
                      | Inr node \<Rightarrow> state_of (call f (env_fields s) (env_root s) node)))"
proof (rule sync_entry_cases[where dir = dir and m = m and k = k and s = s])
  assume sk: "skipped dir m" and r: "sync_entry dir k m s = Returned (m, s)"
  then have "s' = s" using assms by simp
  then show ?thesis using sk by (auto simp: skipped_def split: option.splits)
next
  fix f node p g
  assume mv: "mover_of dir m = Some f" and ns: "\<not> (run_once f \<and> has_run dir m)"
    and rs: "resolve (env_root s) (nodeName m) = Inr node"
    and c: "call f (env_fields s) (env_root s) node = Returned (p, g)"
    and r: "sync_entry dir k m s =
         Returned (if run_once f then set_has_run dir m else m,
                   \<lparr>env_fields = p, env_root = g,
                    env_trace = env_trace s @ [Resolve dir k, Invoke dir k]\<rparr>)"
  have "env_fields s' = p" "env_root s' = g" using assms r by auto
  then show ?thesis using mv ns rs c by auto
qed (use assms in simp_all)

lemma sync_loop_Returned_data:
  assumes "sync_loop dir ms s = Returned (ms', s')"
  shows "(env_fields s', env_root s') = data_after dir ms (env_fields s, env_root s)"
  using assms
proof (induction ms arbitrary: s ms' s')
  case Nil
  then show ?case by simp
next
  case (Cons km ms)
  obtain k m where km: "km = (k, m)" by (cases km)
  obtain m1 s1 where r1: "sync_entry dir k m s = Returned (m1, s1)"
    using Cons.prems km by (cases "sync_entry dir k m s") (auto split: prod.splits)
  obtain ms2 s2 where r2: "sync_loop dir ms s1 = Returned (ms2, s2)"
    using Cons.prems km r1 by (cases "sync_loop dir ms s1") (auto split: prod.splits)
  have res: "s' = s2" using Cons.prems km r1 r2 by simp
  have "(env_fields s2, env_root s2) = data_after dir ms (env_fields s1, env_root s1)"
    by (rule Cons.IH[OF r2])
  then show ?case
    unfolding res km using sync_entry_Returned_data[OF r1] by simp
qed

section \<open>Properties of a simulation step\<close>

lemma steps_Suc: "steps (Suc n) st = state_of (simulationStep (steps n st))"
  by (induction n arbitrary: st) simp_all

lemma advance_container:
  assumes "parameterNode st = Some pn"
  shows "has_returned (advance st)
     \<and> sceneUp (state_of (advance st)) = sceneUp st
     \<and> rootNode (state_of (advance st)) = rootNode st
     \<and> (\<exists>pn'. parameterNode (state_of (advance st)) = Some pn'
           \<and> sofa_node_mappers pn' = sofa_node_mappers pn
           \<and> ctl (attrs pn') = next_ctl (ctl (attrs pn)))"
  using assms by (simp add: advance_def set_fields_def ctl_def)

lemma simulationStep_idle:
  assumes "\<not> sceneUp st \<or> (\<exists>pn. parameterNode st = Some pn \<and> \<not> isSimulationRunning (attrs pn))"
  shows "simulationStep st = Returned (st\<lparr>trace := trace st @ [ErrorDisplay not_running_message]\<rparr>)"
  using assms by (auto simp: simulationStep_def errorDisplay_def)

lemma simulationStep_control:
  assumes pn: "parameterNode st = Some pn"
    and kc: "each_mover keeps_control (sofa_node_mappers pn)"
  shows "\<exists>pn'. parameterNode (state_of (simulationStep st)) = Some pn'
           \<and> evolves (sofa_node_mappers pn) (sofa_node_mappers pn')
           \<and> (ctl (attrs pn') = ctl (attrs pn) \<or> ctl (attrs pn') = next_ctl (ctl (attrs pn)))"
proof (cases "sceneUp st \<and> isSimulationRunning (attrs pn)")
  case False
  then have "simulationStep st = Returned (st\<lparr>trace := trace st @ [ErrorDisplay not_running_message]\<rparr>)"
    using pn by (intro simulationStep_idle) auto
  then show ?thesis using pn by (simp add: evolves_refl)
next
  case True
  obtain pn1 where pn1: "parameterNode (state_of (update Input st)) = Some pn1"
    and ev1: "evolves (sofa_node_mappers pn) (sofa_node_mappers pn1)"
    and c1: "ctl (attrs pn1) = ctl (attrs pn)"
    using update_parameterNode[OF pn, of Input] kc by blast
  show ?thesis
  proof (cases "update Input st")
    case (Raised e st1)
    then have "state_of (simulationStep st) = st1"
      using True pn by (simp add: simulationStep_def updateSofa_def)
    then show ?thesis using pn1 ev1 c1 Raised by auto
  next
    case (Returned st1)
    have p1: "parameterNode st1 = Some pn1" using pn1 Returned by simp
    obtain st2 where adv: "advance st1 = Returned st2"
      using advance_container[OF p1] by (cases "advance st1") auto
    obtain pn2 where p2: "parameterNode st2 = Some pn2"
      and ms2: "sofa_node_mappers pn2 = sofa_node_mappers pn1"
      and c2: "ctl (attrs pn2) = next_ctl (ctl (attrs pn1))"
      using advance_container[OF p1] adv by auto
    have kc2: "each_mover keeps_control (sofa_node_mappers pn2)"
      using kc evolves_each_mover[OF ev1] ms2 by simp
    obtain pn3 where pn3: "parameterNode (state_of (update Output st2)) = Some pn3"
      and ev3: "evolves (sofa_node_mappers pn2) (sofa_node_mappers pn3)"
      and c3: "ctl (attrs pn3) = ctl (attrs pn2)"
      using update_parameterNode[OF p2, of Output] kc2 by blast
    have "simulationStep st = update Output st2"
      using True pn Returned adv by (simp add: simulationStep_def updateSofa_def updateMRML_def)
    moreover have "evolves (sofa_node_mappers pn) (sofa_node_mappers pn3)"
      using ev1 ev3 ms2 by (auto intro: evolves_trans)
    ultimately show ?thesis using pn3 c3 c2 c1 by auto
  qed
qed

lemma update_root:
  assumes "parameterNode st = Some pn" and "each_mover well_behaved (sofa_node_mappers pn)"
    and "rootNode st = Some g"
  shows "\<exists>g'. rootNode (state_of (update dir st)) = Some g' \<and> children g' = children g"
  using update_children[OF assms(1,2), of dir] assms(3)
    children_Some[of "rootNode (state_of (update dir st))" g]
  by simp

lemma simulationStep_stepping:
  assumes "stepping names (bound, step, True) st"
  shows "stepping names (next_ctl (bound, step, True)) (state_of (simulationStep st))"
proof -
  obtain pn g where up: "sceneUp st" and pn: "parameterNode st = Some pn"
    and g: "rootNode st = Some g" "children g = names"
    and wb: "each_mover well_behaved (sofa_node_mappers pn)"
    and res: "resolvable Input names (sofa_node_mappers pn)"
    and c: "ctl (attrs pn) = (bound, step, True)"
    using assms unfolding stepping_def by blast
  have run: "isSimulationRunning (attrs pn)" using c by (simp add: ctl_def)
  have kc: "each_mover keeps_control (sofa_node_mappers pn)"
    using wb by (rule each_mover_mono[rotated]) (rule well_behaved_keeps_control)
  have "has_returned (update Input st)"
    using update_has_returned[OF pn wb g(1), of Input] res g(2) by simp
  then obtain st1 where r1: "update Input st = Returned st1"
    by (cases "update Input st") auto
  obtain pn1 where pn1: "parameterNode st1 = Some pn1"
    and ev1: "evolves (sofa_node_mappers pn) (sofa_node_mappers pn1)"
    and c1: "ctl (attrs pn1) = ctl (attrs pn)"
    using update_parameterNode[OF pn, of Input] kc r1 by auto
  obtain g1 where g1: "rootNode st1 = Some g1" "children g1 = names"
    using update_root[OF pn wb g(1), of Input] r1 g(2) by auto
  have up1: "sceneUp st1" using update_sceneUp[of Input st] r1 up by simp
  obtain st2 where r2: "advance st1 = Returned st2"
    using advance_container[OF pn1] by (cases "advance st1") auto
  obtain pn2 where pn2: "parameterNode st2 = Some pn2"
    and ms2: "sofa_node_mappers pn2 = sofa_node_mappers pn1"
    and c2: "ctl (attrs pn2) = next_ctl (ctl (attrs pn1))"
    using advance_container[OF pn1] r2 by auto
  have up2: "sceneUp st2" and g2: "rootNode st2 = Some g1"
    using advance_container[OF pn1] r2 up1 g1 by auto
  have wb2: "each_mover well_behaved (sofa_node_mappers pn2)"
    using wb evolves_each_mover[OF ev1] ms2 by simp
  have kc2: "each_mover keeps_control (sofa_node_mappers pn2)"
    using wb2 by (rule each_mover_mono[rotated]) (rule well_behaved_keeps_control)
  have step: "simulationStep st = update Output st2"
    using up pn run r1 r2 by (simp add: simulationStep_def updateSofa_def updateMRML_def)
  obtain pn3 where pn3: "parameterNode (state_of (update Output st2)) = Some pn3"
    and ev3: "evolves (sofa_node_mappers pn2) (sofa_node_mappers pn3)"
    and c3: "ctl (attrs pn3) = ctl (attrs pn2)"
    using update_parameterNode[OF pn2, of Output] kc2 by blast
  obtain g3 where g3: "rootNode (state_of (update Output st2)) = Some g3" "children g3 = names"
    using update_root[OF pn2 wb2 g2, of Output] g1(2) by auto
  have "sceneUp (state_of (update Output st2))" using up2 by (simp add: update_sceneUp)
  moreover have "each_mover well_behaved (sofa_node_mappers pn3)"
    using wb2 evolves_each_mover[OF ev3] by simp
  moreover have "resolvable Input names (sofa_node_mappers pn3)"
    using res ev1 ev3 ms2 by (auto intro: resolvable_evolves)
  moreover have "ctl (attrs pn3) = next_ctl (bound, step, True)"
    using c3 c2 c1 c by simp
  ultimately show ?thesis
    unfolding stepping_def step using pn3 g3 by blast
qed

lemma steps_stepping:
  assumes "stepping names (int N, int k, True) st" and "k + n \<le> N"
  shows "stepping names (int N, int (k + n), True) (steps n st)"
  using assms
proof (induction n arbitrary: st k)
  case 0
  then show ?case by simp
next
  case (Suc n)
  have nx: "next_ctl (int N, int k, True) = (int N, int (Suc k), True)"
    using Suc.prems(2) by simp
  have "stepping names (next_ctl (int N, int k, True)) (state_of (simulationStep st))"
    using Suc.prems(1) by (rule simulationStep_stepping)
  then have first: "stepping names (int N, int (Suc k), True) (state_of (simulationStep st))"
    unfolding nx .
  have "Suc k + n \<le> N" using Suc.prems(2) by simp
  with first have "stepping names (int N, int (Suc k + n), True)
                     (steps n (state_of (simulationStep st)))"
    by (rule Suc.IH)
  then show ?case by simp
qed

lemma stepping_control: "stepping names c st \<Longrightarrow> control st = Some c"
  by (auto simp: stepping_def control_def)

lemma setupScene_establishes:
  assumes "\<not> sceneUp st0" and "setupScene st0 (Container pn) (IsNode g) = Returned st"
    and "each_mover well_behaved (sofa_node_mappers pn)"
  shows "stepping (children g) (ctl (attrs pn)) st"
proof -
  let ?st2 = "st0\<lparr>parameterNode := Some pn, rootNode := Some g\<rparr>"
  obtain st3 where upd: "update Input ?st2 = Returned st3"
    and st: "st = st3\<lparr>trace := trace st3 @ [SimInit], sceneUp := True\<rparr>"
    using assms(1,2) by (auto elim!: setupScene_Returned simp: updateSofa_def)
  have pn2: "parameterNode ?st2 = Some pn" by simp
  have g2: "rootNode ?st2 = Some g" by simp
  have kc: "each_mover keeps_control (sofa_node_mappers pn)"
    using assms(3) by (rule each_mover_mono[rotated]) (rule well_behaved_keeps_control)
  obtain pn' where pn': "parameterNode st3 = Some pn'"
    and ev: "evolves (sofa_node_mappers pn) (sofa_node_mappers pn')"
    and c: "ctl (attrs pn') = ctl (attrs pn)"
    using update_parameterNode[OF pn2, of Input] kc upd by auto
  obtain g' where g': "rootNode st3 = Some g'" "children g' = children g"
    using update_root[OF pn2 assms(3) g2, of Input] upd by auto
  have "has_returned (loop_of Input ?st2 pn)"
    using update_returned[OF pn2, of Input] upd by simp
  then have "resolvable Input (children g) (fst (state_of (loop_of Input ?st2 pn)))"
    unfolding loop_of_def by (intro sync_loop_resolved[OF assms(3)]) simp_all
  moreover have "sofa_node_mappers pn' = fst (state_of (loop_of Input ?st2 pn))"
  proof -
    let ?r = "state_of (loop_of Input ?st2 pn)"
    have "parameterNode (state_of (update Input ?st2))
            = Some \<lparr>attrs = env_fields (snd ?r), sofa_node_mappers = fst ?r\<rparr>"
      by (simp add: update_state[OF pn2])
    then have "pn' = \<lparr>attrs = env_fields (snd ?r), sofa_node_mappers = fst ?r\<rparr>"
      using upd pn' by simp
    then show ?thesis by simp
  qed
  ultimately have "resolvable Input (children g) (sofa_node_mappers pn')" by simp
  moreover have "each_mover well_behaved (sofa_node_mappers pn')"
    using assms(3) evolves_each_mover[OF ev] by simp
  ultimately show ?thesis
    unfolding stepping_def st using pn' g' c by simp
qed

section \<open>The example, evaluated\<close>

lemmas example_defs =
  load_mesh_def push_value_def pull_value_def example_mappers_def example_container_def
  example_root_def SlicerSofaLogic_init_def

lemmas model_defs =
  setupScene_def updateSofa_def updateMRML_def update_def store_env_def sync_entry_def
  resolve_def simulationStep_def advance_def set_fields_def startSimulation_def
  stopSimulation_def clean_def errorDisplay_def not_running_message_def

lemma example_built_value:
  "example_built =
     \<lparr>sceneUp = True, rootNode = Some \<lparr>children = [''FEM''], payload = 5\<rparr>,
      parameterNode = Some \<lparr>attrs = attrs example_container,
        sofa_node_mappers =
          [(''mesh'', \<lparr>nodeName = Some ''FEM'', type_hint = None, recordSequence = False,
                  inputMapping = Some load_mesh, outputMapping = Some pull_value,
                  inputMapping_has_run = True, outputMapping_has_run = False\<rparr>),
           (''force'', \<lparr>nodeName = None, type_hint = None, recordSequence = False,
                   inputMapping = Some push_value, outputMapping = None,
                   inputMapping_has_run = False, outputMapping_has_run = False\<rparr>)]\<rparr>,
      trace = [EnterSync Input, Resolve Input ''mesh'', Invoke Input ''mesh'',
               Resolve Input ''force'', Invoke Input ''force'', SimInit]\<rparr>"
  by (simp add: example_built_def example_defs model_defs)

lemma example_setup_returned:
  "setupScene SlicerSofaLogic_init (Container example_container) (IsNode example_root)
     = Returned example_built"
  unfolding example_built_value
  by (simp add: example_defs model_defs)


lemma example_well_behaved: "each_mover well_behaved example_mappers"
proof -
  have "well_behaved load_mesh"
    unfolding well_behaved_def load_mesh_def by (simp add: option.map_comp comp_def)
  moreover have "well_behaved push_value"
    unfolding well_behaved_def push_value_def by (simp add: option.map_comp comp_def)
  moreover have "well_behaved pull_value"
    unfolding well_behaved_def pull_value_def by (simp add: ctl_def split: option.splits)
  ultimately show ?thesis by (simp add: each_mover_def example_mappers_def)
qed

lemma example_unbounded_value:
  "example_unbounded =
     example_built\<lparr>parameterNode :=
       Some ((the (parameterNode example_built))
          \<lparr>attrs := (attrs example_container)\<lparr>totalSteps := - 1\<rparr>\<rparr>)\<rparr>"
  unfolding example_built_value
  by (simp add: example_unbounded_def example_defs model_defs)

section \<open>The lifecycle controller: start, step, clean\<close>

text \<open>
  Claim C10.  \<^verbatim>\<open>startSimulation\<close> does not look at the flag \<^verbatim>\<open>_sceneUp\<close>: on every
  controller that has a container attached, built or not, it returns normally, sets
  \<^verbatim>\<open>currentStep\<close> to 0 and \<^verbatim>\<open>isSimulationRunning\<close> to true, and changes nothing else of the
  controller, the container, the registry or the calls made.
\<close>

theorem startSimulation_unconditional:
  assumes "parameterNode st = Some pn"
  shows "startSimulation st =
           Returned (st\<lparr>parameterNode :=
             Some (pn\<lparr>attrs := (attrs pn)\<lparr>currentStep := 0, isSimulationRunning := True\<rparr>\<rparr>)\<rparr>)"
  using assms by (simp add: startSimulation_def set_fields_def)

text \<open>A controller that was never set up, with a container attached and a step count left
  over from an earlier run.\<close>

theorem startSimulation_unconditional_witness:
  "startSimulation
     (SlicerSofaLogic_init\<lparr>parameterNode :=
        Some (example_container\<lparr>attrs := (attrs example_container)\<lparr>currentStep := 9\<rparr>\<rparr>)\<rparr>) =
   Returned
     \<lparr>sceneUp = False, rootNode = None,
      parameterNode = Some
        \<lparr>attrs = \<lparr>dt = 1 / 100, totalSteps = 2, currentStep = 0, isSimulationRunning = True,
                  sofaParameterNodeWrapped = True, user = 5\<rparr>,
         sofa_node_mappers = example_mappers\<rparr>,
      trace = []\<rparr>"
  using startSimulation_unconditional
    [of "SlicerSofaLogic_init\<lparr>parameterNode :=
           Some (example_container\<lparr>attrs := (attrs example_container)\<lparr>currentStep := 9\<rparr>\<rparr>)\<rparr>"
        "example_container\<lparr>attrs := (attrs example_container)\<lparr>currentStep := 9\<rparr>\<rparr>"]
  by (simp add: SlicerSofaLogic_init_def example_container_def)

text \<open>
  Claim C5.  When \<^verbatim>\<open>simulationStep\<close> is called while the scene is not up, or while the
  attached container is not running, it returns normally and its only effect is the
  message shown to the user: no synchronisation loop is entered, the engine is not called,
  and the controller, the container and the registry are as they were.
\<close>

theorem simulationStep_not_running:
  assumes "\<not> sceneUp st \<or> (\<exists>pn. parameterNode st = Some pn \<and> \<not> isSimulationRunning (attrs pn))"
  shows "simulationStep st =
           Returned (st\<lparr>trace := trace st @ [ErrorDisplay not_running_message]\<rparr>)"
  using assms by (auto simp: simulationStep_def errorDisplay_def)

text \<open>The scene of the example is up, and its simulation was never started.\<close>

theorem simulationStep_not_running_witness:
  "simulationStep example_built =
     Returned (example_built\<lparr>trace := trace example_built @ [ErrorDisplay not_running_message]\<rparr>)
   \<and> sceneUp example_built
   \<and> map_option (\<lambda>pn. isSimulationRunning (attrs pn)) (parameterNode example_built) = Some False"
  using simulationStep_not_running[of example_built]
  by (simp add: example_built_value example_container_def)

text \<open>
  Claim C7.  \<^verbatim>\<open>clean\<close> is idempotent: called on the state that a first call leaves, it
  returns normally and changes nothing, so the flag, the root handle, the running flag and
  the calls to the engine (one \<^verbatim>\<open>unload\<close> at most) are those of a single call.
\<close>

theorem clean_idempotent:
  "clean (state_of (clean st)) = Returned (state_of (clean st))"
  by (cases "parameterNode st") (auto simp: clean_def set_fields_def)

theorem clean_idempotent_witness:
  "clean (state_of (clean example_built)) = Returned (state_of (clean example_built))
   \<and> state_of (clean example_built) =
       example_built\<lparr>sceneUp := False, rootNode := None,
         trace := trace example_built @ [SimUnload]\<rparr>"
  using clean_idempotent[of example_built]
  by (simp add: example_built_value example_container_def clean_def set_fields_def)

section \<open>Construction of a descriptor\<close>

text \<open>
  Claim C9.  Constructing a \<^verbatim>\<open>SofaNodeMapper\<close> with an input mover or an output mover that
  is neither \<^verbatim>\<open>None\<close> nor callable raises \<^verbatim>\<open>ValueError\<close>, for the input mover first.  The
  call yields no descriptor, so there is none that a registry could hold.
\<close>

theorem SofaNodeMapper_init_not_callable:
  assumes "inputMapping' = ArgNotCallable \<or> outputMapping' = ArgNotCallable"
  shows "SofaNodeMapper_init nodeName' inputMapping' outputMapping' recordSequence' =
           Inl (ValueError (if inputMapping' = ArgNotCallable
                            then ''inputMapping is not callable''
                            else ''outputMapping is not callable''))"
  using assms by (cases inputMapping'; cases outputMapping') (simp_all add: SofaNodeMapper_init_def)

theorem SofaNodeMapper_init_not_callable_witness:
  "SofaNodeMapper_init (Some ''FEM'') (ArgCallable load_mesh) ArgNotCallable False =
     Inl (ValueError ''outputMapping is not callable'')"
  using SofaNodeMapper_init_not_callable[of "ArgCallable load_mesh" ArgNotCallable "Some ''FEM''" False]
  by simp

section \<open>Setting up the scene\<close>

text \<open>
  Claim C3.  When \<^verbatim>\<open>setupScene\<close> is called on a controller whose scene is not up and
  returns normally, the scene is up and exactly one push has run, over the whole registry
  of the container: the trace has grown by one entry of \<^verbatim>\<open>__updateSofa__\<close>, then, for every
  registered descriptor that the loop does not skip and in the order of the registry, the
  lookup of its node and the call of its input mover, then the \<^verbatim>\<open>init\<close> of the engine;
  the registry is the one of the argument with the flag of every run-once input mover
  set; and the fields of the container and the graph are what those movers, called in
  that order, have made of the arguments.  From then on every call of \<^verbatim>\<open>setupScene\<close>,
  with whatever arguments, returns normally and changes nothing, so after any sequence of
  further calls that one push is still the only one.
\<close>

theorem setupScene_one_push:
  assumes "\<not> sceneUp st" and "setupScene st p r = Returned st'"
  shows "sceneUp st'
     \<and> trace st' = trace st @ [EnterSync Input] @ sync_events Input (arg_mappers p) @ [SimInit]
     \<and> map_option sofa_node_mappers (parameterNode st')
          = Some (map (\<lambda>km. (fst km, after_sync Input (snd km))) (arg_mappers p))
     \<and> (\<exists>pn g. p = Container pn \<and> r = IsNode g
           \<and> (map_option attrs (parameterNode st'), rootNode st')
               = map_prod Some id (data_after Input (sofa_node_mappers pn) (attrs pn, Some g)))
     \<and> pushes (trace st') = pushes (trace st) + 1
     \<and> (\<forall>p' r'. setupScene st' p' r' = Returned st')
     \<and> (\<forall>calls. setupScene_calls calls st' = st')"
proof -
  obtain pn g st3 where p: "p = Container pn" and r: "r = IsNode g"
    and upd: "updateSofa (st\<lparr>parameterNode := Some pn, rootNode := Some g\<rparr>) = Returned st3"
    and st': "st' = st3\<lparr>trace := trace st3 @ [SimInit], sceneUp := True\<rparr>"
    using assms by (rule setupScene_Returned)
  let ?st2 = "st\<lparr>parameterNode := Some pn, rootNode := Some g\<rparr>"
  have pn2: "parameterNode ?st2 = Some pn" by simp
  have "has_returned (loop_of Input ?st2 pn)"
    using update_returned[OF pn2, of Input] upd by (simp add: updateSofa_def)
  then obtain ms' s' where loop: "loop_of Input ?st2 pn = Returned (ms', s')"
    by (cases "loop_of Input ?st2 pn") auto
  have ms': "ms' = map (\<lambda>km. (fst km, after_sync Input (snd km))) (sofa_node_mappers pn)"
    and tr: "env_trace s' = (trace st @ [EnterSync Input]) @ sync_events Input (sofa_node_mappers pn)"
    using sync_loop_Returned[OF loop[unfolded loop_of_def]] by simp_all
  have data: "(env_fields s', env_root s')
                = data_after Input (sofa_node_mappers pn) (attrs pn, Some g)"
    using sync_loop_Returned_data[OF loop[unfolded loop_of_def]] by simp
  have st3: "st3 = ?st2\<lparr>rootNode := env_root s',
                parameterNode := Some \<lparr>attrs = env_fields s', sofa_node_mappers = ms'\<rparr>,
                trace := env_trace s'\<rparr>"
    using update_state[OF pn2, of Input] upd loop by (simp add: updateSofa_def)
  have up: "sceneUp st'" by (simp add: st')
  have t': "trace st' = trace st @ [EnterSync Input] @ sync_events Input (arg_mappers p) @ [SimInit]"
    by (simp add: st' st3 tr p)
  have d': "(map_option attrs (parameterNode st'), rootNode st')
               = map_prod Some id (data_after Input (sofa_node_mappers pn) (attrs pn, Some g))"
    using data[symmetric] by (simp add: st' st3)
  have "pushes (trace st') = pushes (trace st) + 1"
    unfolding st' st3 using pushes_sync_events[of "trace st @ [EnterSync Input]" Input
        "sofa_node_mappers pn"]
    by (simp add: tr pushes_def)
  moreover have "map_option sofa_node_mappers (parameterNode st')
          = Some (map (\<lambda>km. (fst km, after_sync Input (snd km))) (arg_mappers p))"
    by (simp add: st' st3 ms' p)
  ultimately show ?thesis using up t' d' p r
    by (simp add: setupScene_built setupScene_calls_built)
qed

theorem setupScene_one_push_witness:
  "sceneUp example_built
   \<and> trace example_built =
       [EnterSync Input, Resolve Input ''mesh'', Invoke Input ''mesh'',
        Resolve Input ''force'', Invoke Input ''force'', SimInit]
   \<and> rootNode example_built = Some \<lparr>children = [''FEM''], payload = 5\<rparr>
   \<and> pushes (trace example_built) = 1
   \<and> setupScene example_built NoAttribute NotANode = Returned example_built
   \<and> setupScene_calls [(Container example_container, IsNode example_root), (PyNone, NotANode)]
        example_built = example_built"
  using setupScene_one_push[of SlicerSofaLogic_init "Container example_container"
      "IsNode example_root" example_built] example_setup_returned
  by (simp add: SlicerSofaLogic_init_def pushes_def sync_events_def skipped_def
      example_container_def example_mappers_def load_mesh_def push_value_def
      resolve_def example_root_def)

text \<open>
  Claim C6, as amended.  On a controller whose scene is not up, \<^verbatim>\<open>setupScene\<close> raises
  \<^verbatim>\<open>ValueError\<close> and leaves the whole state as it was when the container is \<^verbatim>\<open>None\<close> or
  has an attribute \<^verbatim>\<open>sofaParameterNodeWrapped\<close> that is not \<^verbatim>\<open>True\<close>.  When the container is
  valid and the root is no \<^verbatim>\<open>Sofa.Core.Node\<close>, it raises \<^verbatim>\<open>ValueError\<close> as well, with the scene
  still not up, the root handle and the trace untouched (no push, no \<^verbatim>\<open>init\<close>), but with the
  container attached to the controller: line 177 runs before the test of line 178.
\<close>

theorem setupScene_invalid_arguments:
  assumes "\<not> sceneUp st"
  shows "setupScene st PyNone r = Raised (ValueError ''parameterNode can't be None'') st
     \<and> (\<not> sofaParameterNodeWrapped (attrs pn) \<longrightarrow>
           setupScene st (Container pn) r =
             Raised (ValueError
               ''parameterNode is not a valid parameterNode wrapped by the sofaParameterNodeWrapper'') st)
     \<and> (sofaParameterNodeWrapped (attrs pn) \<longrightarrow>
           setupScene st (Container pn) NotANode =
             Raised (ValueError ''rootNode is not a valid Sofa.Core.Node root node'')
               (st\<lparr>parameterNode := Some pn\<rparr>))"
  using assms by (simp add: setupScene_def)

theorem setupScene_invalid_arguments_witness:
  "setupScene (SlicerSofaLogic_init :: (int, int) logic) PyNone (IsNode example_root) =
     Raised (ValueError ''parameterNode can't be None'') SlicerSofaLogic_init
   \<and> setupScene SlicerSofaLogic_init (Container example_container) NotANode =
     Raised (ValueError ''rootNode is not a valid Sofa.Core.Node root node'')
       \<lparr>sceneUp = False, rootNode = None, parameterNode = Some example_container, trace = []\<rparr>"
  using setupScene_invalid_arguments[of "SlicerSofaLogic_init :: (int, int) logic"
      "IsNode example_root" example_container]
  by (simp add: SlicerSofaLogic_init_def example_container_def)

text \<open>The claim as it was stated fails for a valid container and an invalid root: the call
  raises \<^verbatim>\<open>ValueError\<close>, and the controller is not as it was, since it now holds the
  container.\<close>

theorem setupScene_invalid_root_counterexample:
  "setupScene SlicerSofaLogic_init (Container example_container) NotANode =
     Raised (ValueError ''rootNode is not a valid Sofa.Core.Node root node'')
       (SlicerSofaLogic_init\<lparr>parameterNode := Some example_container\<rparr>)
   \<and> SlicerSofaLogic_init\<lparr>parameterNode := Some example_container\<rparr>
       \<noteq> (SlicerSofaLogic_init :: (int, int) logic)"
  by (simp add: setupScene_def SlicerSofaLogic_init_def example_container_def)

section \<open>Movers that run once\<close>




text \<open>
  Claim C8.  \<^verbatim>\<open>clean\<close> leaves the registry, and so every flag of every descriptor, exactly
  as it was.  After \<^verbatim>\<open>clean\<close> and a new \<^verbatim>\<open>setupScene\<close> with the same container, the
  descriptor of a field is still registered with the same movers and with every flag that
  was set still set; and a mover that the loop skipped before (a run-once mover that has
  run) is neither called nor resolved by the new setup or by any pushes and pulls after
  it.
\<close>

theorem clean_keeps_has_run:
  assumes "parameterNode st = Some pn" and "distinct (map fst (sofa_node_mappers pn))"
    and "(k, m) \<in> set (sofa_node_mappers pn)"
  shows "map_option sofa_node_mappers (parameterNode (state_of (clean st)))
           = Some (sofa_node_mappers pn)
     \<and> (\<exists>pn' m'. parameterNode (state_of (rebuild st r)) = Some pn'
           \<and> (k, m') \<in> set (sofa_node_mappers pn') \<and> mover_of d m' = mover_of d m
           \<and> (has_run d m \<longrightarrow> has_run d m'))
     \<and> (skipped d m \<longrightarrow>
           filter (touches d k) (trace (syncs ds (state_of (rebuild st r))))
             = filter (touches d k) (trace st))"
proof (intro conjI impI)
  show "map_option sofa_node_mappers (parameterNode (state_of (clean st)))
           = Some (sofa_node_mappers pn)"
    using clean_container[OF assms(1), of d k] by auto
next
  obtain pn' where pn': "parameterNode (state_of (rebuild st r)) = Some pn'"
    and ev: "evolves (sofa_node_mappers pn) (sofa_node_mappers pn')"
    using rebuild_container[OF assms(1), of r d k] by blast
  obtain m' where "(k, m') \<in> set (sofa_node_mappers pn')" and "later m m'"
    using evolves_member[OF ev assms(3)] by blast
  then show "\<exists>pn' m'. parameterNode (state_of (rebuild st r)) = Some pn'
           \<and> (k, m') \<in> set (sofa_node_mappers pn') \<and> mover_of d m' = mover_of d m
           \<and> (has_run d m \<longrightarrow> has_run d m')"
    using pn' later_mover_of[of m m' d] later_has_run[of m m' d] by blast
next
  assume "skipped d m"
  then have q: "quiet d k (sofa_node_mappers pn)"
    using assms(2,3) by (intro distinct_quiet)
  obtain pn' where pn': "parameterNode (state_of (rebuild st r)) = Some pn'"
    and ev: "evolves (sofa_node_mappers pn) (sofa_node_mappers pn')"
    and tr: "quiet d k (sofa_node_mappers pn) \<Longrightarrow>
           filter (touches d k) (trace (state_of (rebuild st r))) = filter (touches d k) (trace st)"
    using rebuild_container[OF assms(1), of r d k] by blast
  have "quiet d k (sofa_node_mappers pn')" using ev q by (rule evolves_quiet)
  then have "filter (touches d k) (trace (syncs ds (state_of (rebuild st r))))
               = filter (touches d k) (trace (state_of (rebuild st r)))"
    using pn' by (intro syncs_quiet)
  then show "filter (touches d k) (trace (syncs ds (state_of (rebuild st r))))
             = filter (touches d k) (trace st)"
    using tr[OF q] by simp
qed

theorem clean_keeps_has_run_witness:
  "map_option sofa_node_mappers (parameterNode (state_of (clean example_built)))
     = map_option sofa_node_mappers (parameterNode example_built)
   \<and> filter (touches Input ''mesh'')
       (trace (syncs [Input, Output] (state_of (rebuild example_built (IsNode example_root)))))
     = [Resolve Input ''mesh'', Invoke Input ''mesh'']"
proof -
  let ?pn = "the (parameterNode example_built)"
  let ?m = "snd (hd (sofa_node_mappers ?pn))"
  have sk: "skipped Input ?m"
    by (simp add: example_built_value skipped_def load_mesh_def)
  have "map_option sofa_node_mappers (parameterNode (state_of (clean example_built)))
           = Some (sofa_node_mappers ?pn)
     \<and> (skipped Input ?m \<longrightarrow>
           filter (touches Input ''mesh'')
             (trace (syncs [Input, Output] (state_of (rebuild example_built (IsNode example_root)))))
             = filter (touches Input ''mesh'') (trace example_built))"
    using clean_keeps_has_run[of example_built ?pn "''mesh''" ?m "IsNode example_root" Input
        "[Input, Output]"]
    by (simp add: example_built_value)
  moreover have "filter (touches Input ''mesh'') (trace example_built)
                   = [Resolve Input ''mesh'', Invoke Input ''mesh'']"
    by (simp add: example_built_value touches_def)
  ultimately show ?thesis using sk by (simp add: example_built_value)
qed

section \<open>Bounded and unbounded runs\<close>

text \<open>
  Claim C2.  With \<^verbatim>\<open>totalSteps = -1\<close> and movers that leave the control fields alone,
  after \<^verbatim>\<open>startSimulation\<close> the running flag is true and \<^verbatim>\<open>currentStep\<close> is 0, and they
  stay so after any number of calls of \<^verbatim>\<open>simulationStep\<close>, whether the calls return or
  raise: the branch of line 208 advances the engine and counts nothing, and the branch of
  line 211 is never taken.
\<close>

theorem unbounded_never_stops:
  assumes "parameterNode st = Some pn" and "totalSteps (attrs pn) = - 1"
    and "each_mover keeps_control (sofa_node_mappers pn)"
  shows "control (steps n (state_of (startSimulation st))) = Some (- 1, 0, True)"
proof -
  have inv: "control (steps n s) = Some (- 1, 0, True)"
    if "parameterNode s = Some p" and "each_mover keeps_control (sofa_node_mappers p)"
      and "ctl (attrs p) = (- 1, 0, True)" for s :: "('a, 'b) logic" and p
    using that
  proof (induction n arbitrary: s p)
    case 0
    then show ?case by (simp add: control_def)
  next
    case (Suc n)
    obtain p' where p': "parameterNode (state_of (simulationStep s)) = Some p'"
      and ev: "evolves (sofa_node_mappers p) (sofa_node_mappers p')"
      and c: "ctl (attrs p') = ctl (attrs p) \<or> ctl (attrs p') = next_ctl (ctl (attrs p))"
      using simulationStep_control[OF Suc.prems(1,2)] by blast
    have "ctl (attrs p') = (- 1, 0, True)" using c Suc.prems(3) by auto
    moreover have "each_mover keeps_control (sofa_node_mappers p')"
      using Suc.prems(2) evolves_each_mover[OF ev] by simp
    ultimately show ?case using p' Suc.IH[of "state_of (simulationStep s)" p'] by simp
  qed
  let ?p0 = "pn\<lparr>attrs := (attrs pn)\<lparr>currentStep := 0, isSimulationRunning := True\<rparr>\<rparr>"
  have "state_of (startSimulation st) = st\<lparr>parameterNode := Some ?p0\<rparr>"
    using assms(1) by (simp add: startSimulation_def set_fields_def)
  then show ?thesis using assms(2,3) inv[of "state_of (startSimulation st)" ?p0]
    by (simp add: ctl_def)
qed

theorem unbounded_never_stops_witness:
  "sceneUp example_unbounded
   \<and> control (state_of (startSimulation example_unbounded)) = Some (- 1, 0, True)
   \<and> control (steps 5 (state_of (startSimulation example_unbounded))) = Some (- 1, 0, True)"
proof -
  let ?pn = "the (parameterNode example_unbounded)"
  have "each_mover well_behaved (sofa_node_mappers ?pn)"
    using example_well_behaved evolves_each_mover[of example_mappers
        "sofa_node_mappers ?pn" well_behaved]
    by (simp add: example_unbounded_value example_built_value example_mappers_def
        evolves_def later_def)
  then have kc: "each_mover keeps_control (sofa_node_mappers ?pn)"
    by (rule each_mover_mono[rotated]) (rule well_behaved_keeps_control)
  show ?thesis
    using unbounded_never_stops[of example_unbounded ?pn 0]
      unbounded_never_stops[of example_unbounded ?pn 5] kc
    by (simp add: example_unbounded_value example_built_value example_container_def)
qed

text \<open>
  Claim C1.  Take a controller whose scene is up, with \<^verbatim>\<open>totalSteps = N\<close>, whose movers
  are well behaved and whose input nodes resolve (the states that \<^verbatim>\<open>setupScene\<close> produces,
  lemma \<open>setupScene_establishes\<close>).  After \<^verbatim>\<open>startSimulation\<close> the step count is 0 and the
  running flag is true; after \<open>N\<close> calls of \<^verbatim>\<open>simulationStep\<close> the running flag is still
  true and \<^verbatim>\<open>currentStep = N\<close>; the next call sets the running flag to false and leaves
  \<^verbatim>\<open>currentStep\<close> at \<open>N\<close>.
\<close>

theorem bounded_run_stops_after_N:
  assumes "sceneUp st" and "parameterNode st = Some pn" and "rootNode st = Some g"
    and "each_mover well_behaved (sofa_node_mappers pn)"
    and "resolvable Input (children g) (sofa_node_mappers pn)"
    and "totalSteps (attrs pn) = int N"
  shows "control (state_of (startSimulation st)) = Some (int N, 0, True)
     \<and> control (steps N (state_of (startSimulation st))) = Some (int N, int N, True)
     \<and> control (steps (Suc N) (state_of (startSimulation st))) = Some (int N, int N, False)"
proof -
  let ?p0 = "pn\<lparr>attrs := (attrs pn)\<lparr>currentStep := 0, isSimulationRunning := True\<rparr>\<rparr>"
  let ?st0 = "state_of (startSimulation st)"
  have st0: "?st0 = st\<lparr>parameterNode := Some ?p0\<rparr>"
    using assms(2) by (simp add: startSimulation_def set_fields_def)
  have s0: "stepping (children g) (int N, int 0, True) ?st0"
    unfolding stepping_def st0 using assms by (simp add: ctl_def)
  then have sN: "stepping (children g) (int N, int (0 + N), True) (steps N ?st0)"
    by (rule steps_stepping) simp
  then have "stepping (children g) (next_ctl (int N, int (0 + N), True))
               (state_of (simulationStep (steps N ?st0)))"
    by (rule simulationStep_stepping)
  then have sS: "stepping (children g) (int N, int N, False) (steps (Suc N) ?st0)"
    unfolding steps_Suc by simp
  show ?thesis
    using stepping_control[OF s0] stepping_control[OF sN] stepping_control[OF sS] by simp
qed

theorem bounded_run_stops_after_N_witness:
  "control (state_of (startSimulation example_built)) = Some (2, 0, True)
   \<and> control (steps 2 (state_of (startSimulation example_built))) = Some (2, 2, True)
   \<and> control (steps 3 (state_of (startSimulation example_built))) = Some (2, 2, False)"
proof -
  have wb: "each_mover well_behaved (sofa_node_mappers (the (parameterNode example_built)))"
    using example_well_behaved evolves_each_mover[of example_mappers
        "sofa_node_mappers (the (parameterNode example_built))" well_behaved]
    by (simp add: example_built_value example_mappers_def evolves_def later_def)
  have res: "resolvable Input [''FEM''] (sofa_node_mappers (the (parameterNode example_built)))"
    by (simp add: example_built_value resolvable_def skipped_def resolves_def load_mesh_def)
  show ?thesis
    using bounded_run_stops_after_N[of example_built "the (parameterNode example_built)"
        "\<lparr>children = [''FEM''], payload = 5\<rparr>" 2] wb res
    by (simp add: example_built_value example_container_def)
qed


end
